theory Spec2Isabelle
  imports Main
begin

section \<open>Python dictionaries in insertion order\<close>

text \<open>
  The program stores capacities in nested \<^verbatim>\<open>defaultdict\<close>s and iterates over them
  (\<^verbatim>\<open>for v in self.graph[u]\<close>), so the order of the keys is observable: a dictionary
  is an association list in insertion order. Reading a missing key of a
  \<^verbatim>\<open>defaultdict\<close> yields the default; the empty entry such a read leaves behind is
  never observed by the functions modelled here, so a read does not change the list.
\<close>

type_synonym node = int

type_synonym 'a dict = "(node \<times> 'a) list"

definition keys :: "'a dict \<Rightarrow> node list" where
  "keys d = map fst d"

definition getd :: "'a dict \<Rightarrow> node \<Rightarrow> 'a \<Rightarrow> 'a" where
  "getd d k dflt = (case map_of d k of None \<Rightarrow> dflt | Some x \<Rightarrow> x)"

fun setd :: "'a dict \<Rightarrow> node \<Rightarrow> 'a \<Rightarrow> 'a dict" where
  "setd [] k x = [(k, x)]"
| "setd ((k', y) # d) k x = (if k' = k then (k, x) # d else (k', y) # setd d k x)"

section \<open>class Graph\<close>

text \<open>
  \<^verbatim>\<open>self.graph\<close> is iterated, so it is a dictionary of dictionaries; \<^verbatim>\<open>self.flow\<close> is a
  \<^verbatim>\<open>defaultdict(lambda: defaultdict(int))\<close> that is only read and written by index,
  so it is a total function with 0 where nothing was stored.
\<close>

record Graph =
  V :: int
  graph_dict :: "int dict dict"
  flow :: "node \<Rightarrow> node \<Rightarrow> int"

definition Graph_init :: "int \<Rightarrow> Graph" where
  "Graph_init vertices = \<lparr>V = vertices, graph_dict = [], flow = (\<lambda>u v. 0)\<rparr>"

definition row :: "Graph \<Rightarrow> node \<Rightarrow> int dict" where
  "row G u = getd (graph_dict G) u []"

definition cap :: "Graph \<Rightarrow> node \<Rightarrow> node \<Rightarrow> int" where
  "cap G u v = getd (row G u) v 0"

definition add_edge :: "Graph \<Rightarrow> node \<Rightarrow> node \<Rightarrow> int \<Rightarrow> Graph" where
  "add_edge G u v capacity =
     G\<lparr>graph_dict := setd (graph_dict G) u (setd (row G u) v (cap G u v + capacity))\<rparr>"

definition set_flow :: "Graph \<Rightarrow> node \<Rightarrow> node \<Rightarrow> int \<Rightarrow> Graph" where
  "set_flow G u v flow_value = G\<lparr>flow := (flow G)(u := (flow G u)(v := flow_value))\<rparr>"

definition get_flow :: "Graph \<Rightarrow> node \<Rightarrow> node \<Rightarrow> int" where
  "get_flow G u v = flow G u v"

definition residual :: "Graph \<Rightarrow> node \<Rightarrow> node \<Rightarrow> int" where
  "residual G u v = cap G u v - flow G u v"

subsection \<open>bfs_path_exists\<close>

text \<open>
  The \<^verbatim>\<open>for v in self.graph[u]\<close> loop over the keys still to be looked at. The first
  component of the result tells whether the loop left through \<^verbatim>\<open>return True\<close>.
\<close>

fun scan_row ::
  "Graph \<Rightarrow> node \<Rightarrow> node \<Rightarrow> node list \<Rightarrow> node set \<Rightarrow> node list \<Rightarrow> (node \<rightharpoonup> node)
     \<Rightarrow> bool \<times> node set \<times> node list \<times> (node \<rightharpoonup> node)" where
  "scan_row G sink u [] visited queue parent = (False, visited, queue, parent)"
| "scan_row G sink u (v # vs) visited queue parent =
     (if v \<notin> visited \<and> residual G u v > 0
      then (if v = sink
            then (True, insert v visited, queue @ [v], parent(v \<mapsto> u))
            else scan_row G sink u vs (insert v visited) (queue @ [v]) (parent(v \<mapsto> u)))
      else scan_row G sink u vs visited queue parent)"

definition heads :: "Graph \<Rightarrow> node set" where
  "heads G = set (concat (map (\<lambda>(u, r). keys r) (graph_dict G)))"

text \<open>
  Every node the search can add to \<^verbatim>\<open>visited\<close> is a key of some row, and each pass of the
  \<^verbatim>\<open>while queue\<close> loop removes one queue entry and adds one per newly visited node:
  the loop ends.
\<close>

lemma card_Diff_insert_lt:
  "finite H \<Longrightarrow> v \<in> H \<Longrightarrow> v \<notin> visited \<Longrightarrow> Suc (card (H - insert v visited)) = card (H - visited)"
proof -
  assume a: "finite H" "v \<in> H" "v \<notin> visited"
  have "H - insert v visited = (H - visited) - {v}" by auto
  moreover have "v \<in> H - visited" using a by simp
  moreover have "finite (H - visited)" using a by simp
  ultimately show ?thesis using card_Suc_Diff1 [of "H - visited" v] by simp
qed

lemma scan_row_measure:
  "scan_row G sink u vs visited queue parent = (b, visited', queue', parent') \<Longrightarrow>
   finite H \<Longrightarrow> set vs \<subseteq> H \<Longrightarrow>
   2 * card (H - visited') + length queue' \<le> 2 * card (H - visited) + length queue"
proof (induction vs arbitrary: visited queue parent)
  case Nil
  then show ?case by simp
next
  case (Cons v vs)
  show ?case
  proof (cases "v \<notin> visited \<and> residual G u v > 0")
    case False
    with Cons.prems have "scan_row G sink u vs visited queue parent = (b, visited', queue', parent')"
      by auto
    from Cons.IH [OF this] Cons.prems show ?thesis by simp
  next
    case True
    have c: "Suc (card (H - insert v visited)) = card (H - visited)"
      using card_Diff_insert_lt [of H v visited] Cons.prems True by simp
    show ?thesis
    proof (cases "v = sink")
      case True
      with \<open>v \<notin> visited \<and> residual G u v > 0\<close> Cons.prems
      have "visited' = insert v visited" "queue' = queue @ [v]" by auto
      with c show ?thesis by simp
    next
      case False
      with True Cons.prems
      have "scan_row G sink u vs (insert v visited) (queue @ [v]) (parent(v \<mapsto> u))
              = (b, visited', queue', parent')" by auto
      from Cons.IH [OF this] Cons.prems c show ?thesis by simp
    qed
  qed
qed

lemma finite_heads: "finite (heads G)"
  unfolding heads_def by (rule finite_set)

lemma row_keys_heads: "set (keys (row G u)) \<subseteq> heads G"
proof (cases "map_of (graph_dict G) u")
  case None
  then show ?thesis by (simp add: row_def getd_def keys_def)
next
  case (Some r)
  then have "(u, r) \<in> set (graph_dict G)" by (rule map_of_SomeD)
  then show ?thesis using Some by (force simp: row_def getd_def heads_def)
qed

function bfs_loop ::
  "Graph \<Rightarrow> node \<Rightarrow> node set \<Rightarrow> node list \<Rightarrow> (node \<rightharpoonup> node) \<Rightarrow> bool \<times> (node \<rightharpoonup> node)" where
  "bfs_loop G sink visited [] parent = (False, parent)"
| "bfs_loop G sink visited (u # queue) parent =
     (case scan_row G sink u (keys (row G u)) visited queue parent of
        (True, visited', queue', parent') \<Rightarrow> (True, parent')
      | (False, visited', queue', parent') \<Rightarrow> bfs_loop G sink visited' queue' parent')"
  by pat_completeness auto
termination
proof (relation "measure (\<lambda>(G, sink, visited, queue, parent).
                            2 * card (heads G - visited) + length queue)", goal_cases)
  case 1
  show ?case by simp
next
  case (2 G sink visited u queue parent x1 x2 y x2a x1a x2b)
  from 2 have a: "(False, x2) = scan_row G sink u (keys (row G u)) visited queue parent"
    and b: "(y, x2a) = x2" and c: "(x1a, x2b) = x2a" by fast+
  have x2: "x2 = (y, x1a, x2b)" using b c by simp
  have eq: "scan_row G sink u (keys (row G u)) visited queue parent = (False, y, x1a, x2b)"
    using a [symmetric] x2 by simp
  have m: "2 * card (heads G - y) + length x1a \<le> 2 * card (heads G - visited) + length queue"
    by (rule scan_row_measure [OF eq finite_heads row_keys_heads])
  show ?case
    unfolding x2 using m by simp
qed


definition bfs_path_exists ::
  "Graph \<Rightarrow> node \<Rightarrow> node \<Rightarrow> (node \<rightharpoonup> node) \<Rightarrow> bool \<times> (node \<rightharpoonup> node)" where
  "bfs_path_exists G source sink parent = bfs_loop G sink {source} [source] parent"

subsection \<open>ford_fulkerson_max_flow\<close>

text \<open>\<^verbatim>\<open>path_flow\<close> starts as \<^verbatim>\<open>float('inf')\<close> and becomes an integer at the first \<^verbatim>\<open>min\<close>.\<close>

datatype path_flow = Float_inf | Amount int

fun py_min :: "path_flow \<Rightarrow> int \<Rightarrow> path_flow" where
  "py_min Float_inf x = Amount x"
| "py_min (Amount a) x = Amount (min a x)"

text \<open>
  The two \<^verbatim>\<open>while s != source\<close> walks along the parent pointers. \<open>None\<close> stands for a walk
  that does not return: \<^verbatim>\<open>parent[s]\<close> raises KeyError, or the pointers run in a cycle.
\<close>

partial_function (option) bottleneck ::
  "Graph \<Rightarrow> (node \<rightharpoonup> node) \<Rightarrow> node \<Rightarrow> node \<Rightarrow> path_flow \<Rightarrow> path_flow option" where
  "bottleneck G parent source s pf =
     (if s \<noteq> source
      then (case parent s of
              None \<Rightarrow> None
            | Some p \<Rightarrow> bottleneck G parent source p (py_min pf (residual G p s)))
      else Some pf)"

text \<open>\<^verbatim>\<open>self.flow[u][v] += path_flow; self.flow[v][u] -= path_flow\<close>, in this order.\<close>

definition augment_edge :: "Graph \<Rightarrow> node \<Rightarrow> node \<Rightarrow> int \<Rightarrow> Graph" where
  "augment_edge G u v amount =
     (let G1 = set_flow G u v (flow G u v + amount)
      in set_flow G1 v u (flow G1 v u - amount))"

partial_function (option) push_path ::
  "Graph \<Rightarrow> (node \<rightharpoonup> node) \<Rightarrow> node \<Rightarrow> node \<Rightarrow> int \<Rightarrow> Graph option" where
  "push_path G parent source v amount =
     (if v \<noteq> source
      then (case parent v of
              None \<Rightarrow> None
            | Some u \<Rightarrow> push_path (augment_edge G u v amount) parent source u amount)
      else Some G)"

text \<open>
  The edges \<^verbatim>\<open>(parent[s], s)\<close> that the walks pass, from the sink back to the source. The
  breadth-first search keeps a tree of such walks: every visited node has one.
\<close>

inductive walk :: "(node \<rightharpoonup> node) \<Rightarrow> node \<Rightarrow> node \<Rightarrow> (node \<times> node) list \<Rightarrow> bool"
  for parent :: "node \<rightharpoonup> node" and source :: node where
  walk_done: "walk parent source source []"
| walk_step: "s \<noteq> source \<Longrightarrow> parent s = Some p \<Longrightarrow> walk parent source p es
              \<Longrightarrow> walk parent source s ((p, s) # es)"

definition bfs_inv :: "Graph \<Rightarrow> node \<Rightarrow> node set \<Rightarrow> node list \<Rightarrow> (node \<rightharpoonup> node) \<Rightarrow> bool" where
  "bfs_inv G source visited queue parent \<longleftrightarrow>
     source \<in> visited \<and> set queue \<subseteq> visited \<and>
     (\<forall>w\<in>visited. \<exists>es. walk parent source w es) \<and>
     dom parent \<subseteq> visited \<and>
     (\<forall>v u. parent v = Some u \<longrightarrow> v \<in> set (keys (row G u)) \<and> 0 < residual G u v)"

lemma walk_bottleneck:
  "walk parent source s es \<Longrightarrow>
   bottleneck G parent source s pf = Some (fold (\<lambda>(p, s) acc. py_min acc (residual G p s)) es pf)"
proof (induction arbitrary: pf rule: walk.induct)
  case walk_done
  show ?case by (subst bottleneck.simps) simp
next
  case (walk_step s p es)
  show ?case by (subst bottleneck.simps) (simp add: walk_step)
qed

lemma walk_push_path:
  "walk parent source s es \<Longrightarrow>
   push_path G parent source s a = Some (fold (\<lambda>(u, v) G. augment_edge G u v a) es G)"
proof (induction arbitrary: G rule: walk.induct)
  case walk_done
  show ?case by (subst push_path.simps) simp
next
  case (walk_step s p es)
  show ?case by (subst push_path.simps) (simp add: walk_step)
qed

lemma walk_upd:
  "walk parent source w es \<Longrightarrow> parent v = None \<Longrightarrow> walk (parent(v \<mapsto> u)) source w es"
proof (induction rule: walk.induct)
  case walk_done
  show ?case by (rule walk.walk_done)
next
  case (walk_step s p es)
  then have "s \<noteq> v" by auto
  then have "(parent(v \<mapsto> u)) s = Some p" using walk_step by simp
  then show ?case using walk_step by (auto intro: walk.walk_step)
qed

lemma bfs_inv_visit:
  assumes inv: "bfs_inv G source visited queue parent"
    and u: "u \<in> visited" and v: "v \<notin> visited"
    and key: "v \<in> set (keys (row G u))" and res: "0 < residual G u v"
  shows "bfs_inv G source (insert v visited) (queue @ [v]) (parent(v \<mapsto> u))"
proof -
  from inv v have pv: "parent v = None" and vs: "v \<noteq> source"
    by (auto simp: bfs_inv_def)
  from inv u obtain es where es: "walk parent source u es"
    by (auto simp: bfs_inv_def)
  have wv: "walk (parent(v \<mapsto> u)) source v ((u, v) # es)"
    using vs walk_upd [OF es pv] by (auto intro: walk.walk_step)
  have old: "\<forall>w\<in>visited. \<exists>es. walk (parent(v \<mapsto> u)) source w es"
  proof
    fix w assume "w \<in> visited"
    with inv obtain ws where "walk parent source w ws" by (auto simp: bfs_inv_def)
    from walk_upd [OF this pv] show "\<exists>es. walk (parent(v \<mapsto> u)) source w es" ..
  qed
  have edges: "\<forall>x y. (parent(v \<mapsto> u)) x = Some y \<longrightarrow> x \<in> set (keys (row G y)) \<and> 0 < residual G y x"
    using inv key res by (auto simp: bfs_inv_def)
  show ?thesis
    unfolding bfs_inv_def
  proof (intro conjI)
    show "source \<in> insert v visited" using inv by (simp add: bfs_inv_def)
    show "set (queue @ [v]) \<subseteq> insert v visited" using inv by (auto simp: bfs_inv_def)
    show "\<forall>w\<in>insert v visited. \<exists>es. walk (parent(v \<mapsto> u)) source w es"
      using old wv by blast
    show "dom (parent(v \<mapsto> u)) \<subseteq> insert v visited" using inv by (auto simp: bfs_inv_def)
    show "\<forall>x y. (parent(v \<mapsto> u)) x = Some y \<longrightarrow> x \<in> set (keys (row G y)) \<and> 0 < residual G y x"
      by (rule edges)
  qed
qed

lemma scan_row_inv:
  "scan_row G sink u vs visited queue parent = (b, visited', queue', parent') \<Longrightarrow>
   bfs_inv G source visited queue parent \<Longrightarrow> u \<in> visited \<Longrightarrow>
   set vs \<subseteq> set (keys (row G u)) \<Longrightarrow>
   bfs_inv G source visited' queue' parent' \<and> (b \<longrightarrow> sink \<in> visited' \<and> sink \<noteq> source)"
proof (induction vs arbitrary: visited queue parent)
  case Nil
  then show ?case by simp
next
  case (Cons v vs)
  show ?case
  proof (cases "v \<notin> visited \<and> residual G u v > 0")
    case False
    with Cons.prems have "scan_row G sink u vs visited queue parent = (b, visited', queue', parent')"
      by auto
    from Cons.IH [OF this] Cons.prems show ?thesis by simp
  next
    case True
    have inv': "bfs_inv G source (insert v visited) (queue @ [v]) (parent(v \<mapsto> u))"
      using bfs_inv_visit [of G source visited queue parent u v] Cons.prems True by simp
    have vs: "v \<noteq> source" using True Cons.prems by (auto simp: bfs_inv_def)
    show ?thesis
    proof (cases "v = sink")
      case True
      with \<open>v \<notin> visited \<and> residual G u v > 0\<close> Cons.prems
      have "b" "visited' = insert v visited" "queue' = queue @ [v]" "parent' = parent(v \<mapsto> u)"
        by auto
      with inv' vs True show ?thesis by blast
    next
      case False
      with True Cons.prems
      have "scan_row G sink u vs (insert v visited) (queue @ [v]) (parent(v \<mapsto> u))
              = (b, visited', queue', parent')" by auto
      from Cons.IH [OF this inv'] Cons.prems show ?thesis by simp
    qed
  qed
qed

lemma bfs_inv_pop: "bfs_inv G source visited (u # queue) parent \<Longrightarrow>
   bfs_inv G source visited queue parent \<and> u \<in> visited"
  by (simp add: bfs_inv_def)

lemma bfs_loop_found:
  "bfs_loop G sink visited queue parent = (True, parent') \<Longrightarrow>
   bfs_inv G source visited queue parent \<Longrightarrow>
   sink \<noteq> source \<and> (\<exists>es. walk parent' source sink es) \<and>
   (\<forall>v u. parent' v = Some u \<longrightarrow> v \<in> set (keys (row G u)) \<and> 0 < residual G u v)"
proof (induction G sink visited queue parent rule: bfs_loop.induct)
  case (1 G sink visited parent)
  then show ?case by simp
next
  case (2 G sink visited u queue parent)
  obtain b visited' queue' parent'' where
    sr: "scan_row G sink u (keys (row G u)) visited queue parent = (b, visited', queue', parent'')"
    by (metis prod_cases4)
  from bfs_inv_pop [OF "2.prems"(2)]
  have inv: "bfs_inv G source visited queue parent" and u: "u \<in> visited" by simp_all
  from scan_row_inv [OF sr inv u]
  have inv': "bfs_inv G source visited' queue' parent''"
    and fnd: "b \<longrightarrow> sink \<in> visited' \<and> sink \<noteq> source" by simp_all
  show ?case
  proof (cases b)
    case True
    with sr "2.prems"(1) have "parent' = parent''" by simp
    with inv' fnd True show ?thesis by (auto simp: bfs_inv_def)
  next
    case False
    with sr "2.prems"(1) have "bfs_loop G sink visited' queue' parent'' = (True, parent')" by simp
    with "2.IH" [of b "(visited', queue', parent'')"
                    visited' "(queue', parent'')" queue' parent''] sr False inv'
    show ?thesis by simp
  qed
qed


text \<open>The two walks as folds over the edges of the walk.\<close>

definition path_min :: "Graph \<Rightarrow> (node \<times> node) list \<Rightarrow> path_flow \<Rightarrow> path_flow" where
  "path_min G es pf = fold (\<lambda>(p, s) acc. py_min acc (residual G p s)) es pf"

definition push_edges :: "Graph \<Rightarrow> (node \<times> node) list \<Rightarrow> int \<Rightarrow> Graph" where
  "push_edges G es a = fold (\<lambda>(u, v) G. augment_edge G u v a) es G"

lemma path_min_Nil [simp]: "path_min G [] pf = pf"
  by (simp add: path_min_def)

lemma path_min_Cons [simp]:
  "path_min G ((p, s) # es) pf = path_min G es (py_min pf (residual G p s))"
  by (simp add: path_min_def)

lemma push_edges_Nil [simp]: "push_edges G [] a = G"
  by (simp add: push_edges_def)

lemma push_edges_Cons [simp]:
  "push_edges G ((u, v) # es) a = push_edges (augment_edge G u v a) es a"
  by (simp add: push_edges_def)

lemma py_min_Amount: "\<exists>a. py_min pf x = Amount a"
  by (cases pf) simp_all

lemma path_min_Amount: "pf = Amount b \<Longrightarrow> \<exists>a. path_min G es pf = Amount a"
proof (induction es arbitrary: pf b)
  case Nil
  then show ?case by simp
next
  case (Cons e es)
  obtain p s where e: "e = (p, s)" by (cases e)
  obtain c where "py_min pf (residual G p s) = Amount c" using py_min_Amount by blast
  from Cons.IH [OF this] e show ?case by simp
qed

lemma path_min_bounds:
  "path_min G es pf = Amount a \<Longrightarrow>
   (\<forall>(p, s)\<in>set es. a \<le> residual G p s) \<and> (\<forall>b. pf = Amount b \<longrightarrow> a \<le> b)"
proof (induction es arbitrary: pf)
  case Nil
  then show ?case by simp
next
  case (Cons e es)
  obtain p s where e: "e = (p, s)" by (cases e)
  from Cons.prems e have "path_min G es (py_min pf (residual G p s)) = Amount a" by simp
  from Cons.IH [OF this]
  have 1: "\<forall>(p, s)\<in>set es. a \<le> residual G p s"
    and 2: "\<forall>b. py_min pf (residual G p s) = Amount b \<longrightarrow> a \<le> b" by simp_all
  from 2 have "a \<le> residual G p s \<and> (\<forall>b. pf = Amount b \<longrightarrow> a \<le> b)"
    by (cases pf) auto
  with 1 e show ?case by simp
qed

lemma path_min_pos:
  "path_min G es pf = Amount a \<Longrightarrow> \<forall>(p, s)\<in>set es. 0 < residual G p s \<Longrightarrow>
   \<forall>b. pf = Amount b \<longrightarrow> 0 < b \<Longrightarrow> 0 < a"
proof (induction es arbitrary: pf)
  case Nil
  then show ?case by simp
next
  case (Cons e es)
  obtain p s where e: "e = (p, s)" by (cases e)
  from Cons.prems e have 1: "path_min G es (py_min pf (residual G p s)) = Amount a" by simp
  have 2: "\<forall>(p, s)\<in>set es. 0 < residual G p s" using Cons.prems by simp
  have "0 < residual G p s" using Cons.prems e by simp
  then have 3: "\<forall>b. py_min pf (residual G p s) = Amount b \<longrightarrow> 0 < b"
    using Cons.prems(3) by (cases pf) auto
  from Cons.IH [OF 1 2 3] show ?case .
qed

lemma walk_edges: "walk parent source s es \<Longrightarrow> \<forall>(p, v)\<in>set es. parent v = Some p \<and> v \<noteq> source"
  by (induction rule: walk.induct) auto

lemma walk_source: "walk parent source source es \<Longrightarrow> es = []"
  by (erule walk.cases) auto

lemma graph_dict_set_flow [simp]: "graph_dict (set_flow G u v x) = graph_dict G"
  by (simp add: set_flow_def)

lemma graph_dict_augment_edge [simp]: "graph_dict (augment_edge G u v a) = graph_dict G"
  by (simp add: augment_edge_def Let_def)

lemma graph_dict_push_edges [simp]: "graph_dict (push_edges G es a) = graph_dict G"
proof (induction es arbitrary: G)
  case Nil
  show ?case by simp
next
  case (Cons e es)
  obtain u v where "e = (u, v)" by (cases e)
  with Cons show ?case by simp
qed

lemma flow_augment_edge:
  "flow (augment_edge G u v a) =
     (let f1 = (flow G)(u := (flow G u)(v := flow G u v + a))
      in f1(v := (f1 v)(u := f1 v u - a)))"
  by (simp add: augment_edge_def set_flow_def Let_def)

lemma flow_augment_other:
  "u \<noteq> source \<Longrightarrow> v \<noteq> source \<Longrightarrow> flow (augment_edge G u v a) source = flow G source"
  by (simp add: flow_augment_edge Let_def)

lemma flow_augment_source:
  "v \<noteq> source \<Longrightarrow>
   flow (augment_edge G source v a) source = (flow G source)(v := flow G source v + a)"
  by (simp add: flow_augment_edge Let_def)

lemma walk_push_source_row:
  "walk parent source s es \<Longrightarrow> s \<noteq> source \<Longrightarrow>
   \<exists>w. (source, w) \<in> set es \<and>
       flow (push_edges G es a) source = (flow G source)(w := flow G source w + a)"
proof (induction arbitrary: G rule: walk.induct)
  case walk_done
  then show ?case by simp
next
  case (walk_step s p es)
  show ?case
  proof (cases "p = source")
    case True
    with walk_step have "es = []" by (simp add: walk_source)
    with True walk_step(1) show ?thesis by (simp add: flow_augment_source)
  next
    case False
    from walk_step.IH [OF False, of "augment_edge G p s a"]
    obtain w where w: "(source, w) \<in> set es"
      "flow (push_edges (augment_edge G p s a) es a) source =
         (flow (augment_edge G p s a) source)(w := flow (augment_edge G p s a) source w + a)"
      by blast
    have "flow (augment_edge G p s a) source = flow G source"
      using False walk_step(1) by (rule flow_augment_other)
    with w show ?thesis by auto
  qed
qed

definition ff_measure :: "Graph \<Rightarrow> node \<Rightarrow> nat" where
  "ff_measure G source = sum_list (map (\<lambda>v. nat (residual G source v)) (keys (row G source)))"

lemma sum_list_strict:
  fixes f g :: "'a \<Rightarrow> nat"
  shows "\<forall>x\<in>set xs. f x \<le> g x \<Longrightarrow> w \<in> set xs \<Longrightarrow> f w < g w \<Longrightarrow>
         sum_list (map f xs) < sum_list (map g xs)"
proof (induction xs)
  case Nil
  then show ?case by simp
next
  case (Cons x xs)
  have le: "sum_list (map f xs) \<le> sum_list (map g xs)"
    using Cons.prems(1) by (simp add: sum_list_mono)
  show ?case
  proof (cases "w = x")
    case True
    with Cons.prems le show ?thesis by simp
  next
    case False
    with Cons have "sum_list (map f xs) < sum_list (map g xs)" by simp
    moreover have "f x \<le> g x" using Cons.prems by simp
    ultimately show ?thesis by simp
  qed
qed

lemma ff_measure_decreases:
  assumes gd: "graph_dict G' = graph_dict G"
    and fl: "flow G' source = (flow G source)(w := flow G source w + a)"
    and a: "0 < a" "a \<le> residual G source w"
    and w: "w \<in> set (keys (row G source))"
  shows "ff_measure G' source < ff_measure G source"
proof -
  have rw: "row G' = row G" using gd by (simp add: row_def fun_eq_iff)
  have res: "\<And>v. residual G' source v = (if v = w then residual G source v - a else residual G source v)"
    using gd fl by (simp add: residual_def cap_def row_def)
  have "sum_list (map (\<lambda>v. nat (residual G' source v)) (keys (row G source)))
          < sum_list (map (\<lambda>v. nat (residual G source v)) (keys (row G source)))"
  proof (rule sum_list_strict [OF _ w])
    show "\<forall>x\<in>set (keys (row G source)). nat (residual G' source x) \<le> nat (residual G source x)"
      using a by (auto simp: res)
    show "nat (residual G' source w) < nat (residual G source w)"
      using a by (simp add: res)
  qed
  then show ?thesis by (simp add: ff_measure_def rw)
qed

text \<open>What one successful search gives the two walks.\<close>

lemma bfs_path_exists_found:
  assumes "bfs_path_exists G source sink Map.empty = (True, parent)"
  shows "sink \<noteq> source \<and> (\<exists>es. walk parent source sink es) \<and>
         (\<forall>v u. parent v = Some u \<longrightarrow> v \<in> set (keys (row G u)) \<and> 0 < residual G u v)"
proof -
  have "bfs_inv G source {source} [source] Map.empty"
    by (auto simp: bfs_inv_def intro: walk.walk_done)
  with assms show ?thesis
    unfolding bfs_path_exists_def using bfs_loop_found by blast
qed

text \<open>
  One evaluation of the \<^verbatim>\<open>while self.bfs_path_exists(...)\<close> condition and, when it holds, of
  the loop body. \<open>No_return\<close>: a walk does not return, or \<^verbatim>\<open>path_flow\<close> is still
  \<^verbatim>\<open>float('inf')\<close> after the first walk (the sink is the source, the flow stays as it
  is, and the loop would run forever).
\<close>

datatype iteration = Stop | No_return | Pushed int Graph

definition loop_body :: "Graph \<Rightarrow> node \<Rightarrow> node \<Rightarrow> iteration" where
  "loop_body G source sink =
     (case bfs_path_exists G source sink Map.empty of
        (False, parent) \<Rightarrow> Stop
      | (True, parent) \<Rightarrow>
          (case bottleneck G parent source sink Float_inf of
             None \<Rightarrow> No_return
           | Some Float_inf \<Rightarrow> No_return
           | Some (Amount amount) \<Rightarrow>
               (case push_path G parent source sink amount of
                  None \<Rightarrow> No_return
                | Some G' \<Rightarrow> Pushed amount G')))"

text \<open>What a successful search gives the loop body: a walk whose edges are keys of the
  capacity rows with positive residual capacity, and the push of its least residual.\<close>

lemma path_min_inf: "es \<noteq> [] \<Longrightarrow> \<exists>a. path_min G es Float_inf = Amount a"
proof (cases es)
  case Nil
  assume "es \<noteq> []" with Nil show ?thesis by simp
next
  case (Cons e es')
  obtain p s where "e = (p, s)" by (cases e)
  with Cons path_min_Amount [of "py_min Float_inf (residual G p s)" "residual G p s" G es']
  show ?thesis by simp
qed

lemma walk_nonempty: "walk parent source s es \<Longrightarrow> s \<noteq> source \<Longrightarrow> es \<noteq> []"
  by (erule walk.cases) auto

lemma loop_body_found:
  assumes bfs: "bfs_path_exists G source sink Map.empty = (True, parent)"
  shows "\<exists>es amount. walk parent source sink es \<and> sink \<noteq> source \<and> 0 < amount \<and>
           (\<forall>(p, s)\<in>set es. amount \<le> residual G p s \<and> s \<in> set (keys (row G p)) \<and> s \<noteq> source) \<and>
           loop_body G source sink = Pushed amount (push_edges G es amount)"
proof -
  from bfs_path_exists_found [OF bfs] obtain es where
    ne: "sink \<noteq> source" and wk: "walk parent source sink es"
    and ed: "\<forall>v u. parent v = Some u \<longrightarrow> v \<in> set (keys (row G u)) \<and> 0 < residual G u v"
    by blast
  from path_min_inf [OF walk_nonempty [OF wk ne]] obtain amount where
    pm: "path_min G es Float_inf = Amount amount" by blast
  have bn: "bottleneck G parent source sink Float_inf = Some (Amount amount)"
    using walk_bottleneck [OF wk, of G Float_inf] pm by (simp add: path_min_def)
  have pp: "push_path G parent source sink amount = Some (push_edges G es amount)"
    using walk_push_path [OF wk, of G amount] by (simp add: push_edges_def)
  have we: "\<forall>(p, v)\<in>set es. parent v = Some p \<and> v \<noteq> source" by (rule walk_edges [OF wk])
  have pos_es: "\<forall>(p, s)\<in>set es. 0 < residual G p s"
    using we ed by auto
  have pos: "0 < amount" using path_min_pos [OF pm pos_es] by simp
  have le: "\<forall>(p, s)\<in>set es. amount \<le> residual G p s" using path_min_bounds [OF pm] by simp
  have all: "\<forall>(p, s)\<in>set es. amount \<le> residual G p s \<and> s \<in> set (keys (row G p)) \<and> s \<noteq> source"
    using le we ed by fastforce
  have "loop_body G source sink = Pushed amount (push_edges G es amount)"
    by (simp add: loop_body_def bfs bn pp)
  with wk ne pos all show ?thesis by blast
qed

lemma loop_body_cases:
  obtains (Stop) "loop_body G source sink = Stop"
  | (Pushed) parent es amount where
      "walk parent source sink es" "sink \<noteq> source" "0 < amount"
      "\<forall>(p, s)\<in>set es. amount \<le> residual G p s \<and> s \<in> set (keys (row G p)) \<and> s \<noteq> source"
      "loop_body G source sink = Pushed amount (push_edges G es amount)"
proof (cases "bfs_path_exists G source sink Map.empty")
  case (Pair b parent)
  show ?thesis
  proof (cases b)
    case False
    with Pair have "loop_body G source sink = Stop" by (simp add: loop_body_def)
    then show ?thesis by (rule Stop)
  next
    case True
    with Pair have "bfs_path_exists G source sink Map.empty = (True, parent)" by simp
    from loop_body_found [OF this] obtain es amount where
      "walk parent source sink es" "sink \<noteq> source" "0 < amount"
      "\<forall>(p, s)\<in>set es. amount \<le> residual G p s \<and> s \<in> set (keys (row G p)) \<and> s \<noteq> source"
      "loop_body G source sink = Pushed amount (push_edges G es amount)" by blast
    then show ?thesis by (rule Pushed)
  qed
qed

lemma pushed_decreases:
  assumes "loop_body G source sink = Pushed amount G'"
  shows "ff_measure G' source < ff_measure G source"
proof (cases G source sink rule: loop_body_cases)
  case Stop
  with assms show ?thesis by simp
next
  case (Pushed parent es a)
  with assms have G': "G' = push_edges G es a" by auto
  from walk_push_source_row [OF Pushed(1,2), of G a] obtain w where
    w: "(source, w) \<in> set es"
    and fl: "flow G' source = (flow G source)(w := flow G source w + a)"
    unfolding G' by blast
  from Pushed(4) w have le: "a \<le> residual G source w" and key: "w \<in> set (keys (row G source))"
    by auto
  show ?thesis
    by (rule ff_measure_decreases [OF _ fl Pushed(3) le key]) (simp add: G')
qed

function ff_loop :: "Graph \<Rightarrow> node \<Rightarrow> node \<Rightarrow> int \<Rightarrow> (int \<times> Graph) option" where
  "ff_loop G source sink max_flow_value =
     (case loop_body G source sink of
        Stop \<Rightarrow> Some (max_flow_value, G)
      | No_return \<Rightarrow> None
      | Pushed amount G' \<Rightarrow> ff_loop G' source sink (max_flow_value + amount))"
  by pat_completeness auto
termination
proof (relation "measure (\<lambda>(G, source, sink, max_flow_value). ff_measure G source)", goal_cases)
  case 1
  show ?case by simp
next
  case (2 G source sink max_flow_value amount G')
  then show ?case by (simp add: pushed_decreases)
qed

definition ford_fulkerson_max_flow :: "Graph \<Rightarrow> node \<Rightarrow> node \<Rightarrow> (int \<times> Graph) option" where
  "ford_fulkerson_max_flow G source sink = ff_loop G source sink 0"

text \<open>The equations of the two walks are their code equations, for runs on concrete networks.\<close>

declare bottleneck.simps [code]
declare push_path.simps [code]

lemma ff_loop_stop: "loop_body G source sink = Stop \<Longrightarrow> ff_loop G source sink t = Some (t, G)"
  by simp

lemma ff_loop_pushed:
  "loop_body G source sink = Pushed a G' \<Longrightarrow> ff_loop G source sink t = ff_loop G' source sink (t + a)"
  by simp

text \<open>
  An invariant of the loop: what holds before the loop and is kept by every augmentation
  holds for the returned total and flow, and the loop does return.
\<close>

definition kept_by_augmentation :: "(Graph \<Rightarrow> int \<Rightarrow> bool) \<Rightarrow> node \<Rightarrow> node \<Rightarrow> bool" where
  "kept_by_augmentation I source sink \<longleftrightarrow>
     (\<forall>G t parent es a.
        I G t \<longrightarrow> walk parent source sink es \<longrightarrow> sink \<noteq> source \<longrightarrow> 0 < a \<longrightarrow>
        (\<forall>(p, s)\<in>set es. a \<le> residual G p s \<and> s \<in> set (keys (row G p)) \<and> s \<noteq> source) \<longrightarrow>
        loop_body G source sink = Pushed a (push_edges G es a) \<longrightarrow>
        I (push_edges G es a) (t + a))"

lemma ff_loop_invariant:
  "I G t \<Longrightarrow> kept_by_augmentation I source sink \<Longrightarrow>
   \<exists>t' G'. ff_loop G source sink t = Some (t', G') \<and> I G' t' \<and> loop_body G' source sink = Stop"
proof (induction G source sink t rule: ff_loop.induct)
  case (1 G source sink t)
  show ?case
  proof (cases G source sink rule: loop_body_cases)
    case Stop
    with "1.prems" show ?thesis by (simp del: ff_loop.simps add: ff_loop_stop)
  next
    case (Pushed parent es a)
    have "I (push_edges G es a) (t + a)"
      using "1.prems" Pushed unfolding kept_by_augmentation_def by blast
    from "1.IH" [OF Pushed(5) this "1.prems"(2)] Pushed(5) show ?thesis
      by (simp del: ff_loop.simps add: ff_loop_pushed)
  qed
qed

lemma ford_fulkerson_returns:
  "\<exists>t G'. ford_fulkerson_max_flow G source sink = Some (t, G')"
proof -
  have "kept_by_augmentation (\<lambda>G t. True) source sink"
    by (simp add: kept_by_augmentation_def)
  from ff_loop_invariant [of "\<lambda>G t. True" G 0, OF _ this]
  show ?thesis unfolding ford_fulkerson_max_flow_def by blast
qed

subsection \<open>verify_maximum_flow\<close>

text \<open>
  The supplied flow is a \<^verbatim>\<open>defaultdict\<close> of \<^verbatim>\<open>defaultdict(int)\<close>, iterated over its keys and
  read with \<^verbatim>\<open>user_flow[u][v]\<close> and \<^verbatim>\<open>.get(v, 0)\<close>.
\<close>

type_synonym flow_dict = "int dict dict"

definition entry :: "flow_dict \<Rightarrow> node \<Rightarrow> node \<Rightarrow> int" where
  "entry user_flow u v = getd (getd user_flow u []) v 0"

text \<open>\<^verbatim>\<open>for u in self.graph: for v in self.graph[u]: target.add_edge(u, v, self.graph[u][v])\<close>\<close>

definition copy_edges :: "Graph \<Rightarrow> Graph \<Rightarrow> Graph" where
  "copy_edges G target =
     fold (\<lambda>u tg. fold (\<lambda>v tg. add_edge tg u v (cap G u v)) (keys (row G u)) tg)
          (keys (graph_dict G)) target"

text \<open>\<^verbatim>\<open>for u in user_flow: for v in user_flow[u]: test_graph.set_flow(u, v, user_flow[u][v])\<close>\<close>

definition set_user_flow :: "flow_dict \<Rightarrow> Graph \<Rightarrow> Graph" where
  "set_user_flow user_flow target =
     fold (\<lambda>u tg. fold (\<lambda>v tg. set_flow tg u v (entry user_flow u v))
                       (keys (getd user_flow u [])) tg)
          (keys user_flow) target"

text \<open>The loop that adds up \<^verbatim>\<open>user_flow_value\<close>.\<close>

definition user_flow_value :: "node \<Rightarrow> flow_dict \<Rightarrow> int" where
  "user_flow_value source user_flow =
     fold (\<lambda>u acc. fold (\<lambda>v acc. if entry user_flow u v > 0
                                      then (if u = source then acc + entry user_flow u v else acc)
                                      else acc)
                         (keys (getd user_flow u [])) acc)
          (keys user_flow) 0"

text \<open>
  \<^verbatim>\<open>inflow = sum(user_flow[u].get(node, 0) for u in user_flow)\<close> and
  \<^verbatim>\<open>outflow = sum(user_flow[node].get(v, 0) for v in range(self.V))\<close>.
\<close>

definition inflow :: "flow_dict \<Rightarrow> node \<Rightarrow> int" where
  "inflow user_flow node = sum_list (map (\<lambda>u. entry user_flow u node) (keys user_flow))"

definition outflow :: "int \<Rightarrow> flow_dict \<Rightarrow> node \<Rightarrow> int" where
  "outflow n user_flow node = sum_list (map (\<lambda>v. entry user_flow node v) [0..n - 1])"

text \<open>
  The \<^verbatim>\<open>for node in range(self.V)\<close> loop over the nodes still to be checked; \<open>False\<close> when it
  leaves through \<^verbatim>\<open>return False, 0, actual_max_flow\<close>.
\<close>

fun conservation_loop :: "int \<Rightarrow> node \<Rightarrow> node \<Rightarrow> flow_dict \<Rightarrow> node list \<Rightarrow> bool" where
  "conservation_loop n source sink user_flow [] = True"
| "conservation_loop n source sink user_flow (node # nodes) =
     (if node \<noteq> source \<and> node \<noteq> sink
      then (if inflow user_flow node \<noteq> outflow n user_flow node
            then False
            else conservation_loop n source sink user_flow nodes)
      else conservation_loop n source sink user_flow nodes)"

definition verify_maximum_flow ::
  "Graph \<Rightarrow> node \<Rightarrow> node \<Rightarrow> flow_dict \<Rightarrow> (bool \<times> int \<times> int) option" where
  "verify_maximum_flow G source sink user_flow =
     (let test_graph = set_user_flow user_flow (copy_edges G (Graph_init (V G)));
          test_graph_flow_only = copy_edges G (Graph_init (V G))
      in case ford_fulkerson_max_flow test_graph_flow_only source sink of
           None \<Rightarrow> None
         | Some (actual_max_flow, final) \<Rightarrow>
             (let uvalue = user_flow_value source user_flow
              in if conservation_loop (V G) source sink user_flow [0..V G - 1]
                 then Some (uvalue = actual_max_flow, uvalue, actual_max_flow)
                 else Some (False, 0, actual_max_flow)))"

text \<open>The route \<^verbatim>\<open>verify_flow\<close> builds the graph from the level's edge records.\<close>

definition build_graph :: "int \<Rightarrow> (node \<times> node \<times> int) list \<Rightarrow> Graph" where
  "build_graph nodes edges = fold (\<lambda>(u, v, capacity) G. add_edge G u v capacity) edges (Graph_init nodes)"

subsection \<open>Example networks\<close>

text \<open>The chain of level 1: 0 \<rightarrow> 1 (10), 1 \<rightarrow> 2 (5), 2 \<rightarrow> 3 (15).\<close>

definition chain_graph :: Graph where
  "chain_graph = build_graph 4 [(0, 1, 10), (1, 2, 5), (2, 3, 15)]"

text \<open>
  A network with two edge-disjoint paths 0-1-5-6-7 and 0-2-4-3-7 and the shortcut 1 \<rightarrow> 3,
  all of capacity 1: the shortest path 0-1-3-7 uses the shortcut, and the second unit of
  flow has to come back over it.
\<close>

definition shortcut_graph :: Graph where
  "shortcut_graph = build_graph 8
     [(0, 1, 1), (0, 2, 1), (1, 3, 1), (1, 5, 1), (2, 4, 1), (4, 3, 1), (3, 7, 1), (5, 6, 1), (6, 7, 1)]"

section \<open>Properties of the search and of the augmentation loop\<close>

lemma loop_body_same_node: "loop_body G source source = Stop"
  by (cases G source source rule: loop_body_cases) simp_all

lemma flow_add_edge [simp]: "flow (add_edge G u v c) = flow G"
  by (simp add: add_edge_def)

lemma flow_fold_add_edge:
  "flow (fold (\<lambda>v tg. add_edge tg u v (f v)) vs T) = flow T"
  by (induction vs arbitrary: T) simp_all

lemma flow_copy_edges: "flow (copy_edges G T) = flow T"
proof -
  have "flow (fold (\<lambda>u tg. fold (\<lambda>v tg. add_edge tg u v (cap G u v)) (keys (row G u)) tg) us T)
          = flow T" for us
    by (induction us arbitrary: T) (simp_all add: flow_fold_add_edge)
  then show ?thesis by (simp add: copy_edges_def)
qed

lemma conservation_loop_iff:
  "conservation_loop n source sink user_flow nodes \<longleftrightarrow>
     (\<forall>node\<in>set nodes. node \<noteq> source \<and> node \<noteq> sink \<longrightarrow>
        inflow user_flow node = outflow n user_flow node)"
  by (induction nodes) auto

lemma verify_maximum_flow_result:
  assumes "ford_fulkerson_max_flow (copy_edges G (Graph_init (V G))) source sink = Some (mx, final)"
  shows "verify_maximum_flow G source sink user_flow =
           Some (if conservation_loop (V G) source sink user_flow [0..V G - 1]
                 then (user_flow_value source user_flow = mx, user_flow_value source user_flow, mx)
                 else (False, 0, mx))"
  using assms by (simp add: verify_maximum_flow_def Let_def)

text \<open>The flow states the loop passes through: the start and the state after each augmentation.\<close>

inductive after_augmentations :: "node \<Rightarrow> node \<Rightarrow> Graph \<Rightarrow> Graph \<Rightarrow> bool"
  for source :: node and sink :: node where
  at_start: "after_augmentations source sink G G"
| after_push: "after_augmentations source sink G G1 \<Longrightarrow> loop_body G1 source sink = Pushed a G2
               \<Longrightarrow> after_augmentations source sink G G2"

definition antisymmetric :: "Graph \<Rightarrow> bool" where
  "antisymmetric G \<longleftrightarrow> (\<forall>u v. flow G v u = - flow G u v)"

lemma flow_augment_edge_apply:
  "flow (augment_edge G u v a) p q =
     flow G p q + (if p = u \<and> q = v then a else 0) - (if p = v \<and> q = u then a else 0)"
  by (simp add: flow_augment_edge Let_def)

lemma antisymmetricD: "antisymmetric G \<Longrightarrow> flow G v u = - flow G u v"
  unfolding antisymmetric_def by (drule spec, drule spec)

lemma antisymmetricI: "(\<And>u v. flow G v u = - flow G u v) \<Longrightarrow> antisymmetric G"
  unfolding antisymmetric_def by (intro allI)

lemma antisymmetric_augment_edge:
  assumes "antisymmetric G"
  shows "antisymmetric (augment_edge G u v a)"
proof (rule antisymmetricI)
  fix x y
  define c where "c p q = (if p = u \<and> q = v then a else 0) - (if p = v \<and> q = u then a else 0)"
    for p q
  have sym: "c y x = - c x y" unfolding c_def by (cases "x = u"; cases "y = v"; cases "x = v"; cases "y = u"; simp)
  have f: "flow (augment_edge G u v a) p q = flow G p q + c p q" for p q
    by (simp add: flow_augment_edge_apply c_def)
  have "flow G y x = - flow G x y" using assms by (rule antisymmetricD)
  with f [of y x] f [of x y] sym show "flow (augment_edge G u v a) y x = - flow (augment_edge G u v a) x y"
    by linarith
qed

lemma antisymmetric_push_edges: "antisymmetric G \<Longrightarrow> antisymmetric (push_edges G es a)"
proof (induction es arbitrary: G)
  case Nil
  then show ?case by simp
next
  case (Cons e es)
  obtain u v where "e = (u, v)" by (cases e)
  with Cons show ?case by (simp add: antisymmetric_augment_edge)
qed

lemma antisymmetric_pushed:
  assumes "loop_body G source sink = Pushed a G'" and "antisymmetric G"
  shows "antisymmetric G'"
proof (cases G source sink rule: loop_body_cases)
  case Stop
  with assms show ?thesis by simp
next
  case (Pushed parent es b)
  with assms have "G' = push_edges G es b" by auto
  with assms(2) show ?thesis by (simp add: antisymmetric_push_edges)
qed

lemma antisymmetric_after_augmentations:
  "after_augmentations source sink G G' \<Longrightarrow> antisymmetric G \<Longrightarrow> antisymmetric G'"
  by (induction rule: after_augmentations.induct) (auto intro: antisymmetric_pushed)

lemma ford_fulkerson_after_augmentations:
  "\<exists>total final. ford_fulkerson_max_flow G source sink = Some (total, final) \<and>
     after_augmentations source sink G final \<and> loop_body final source sink = Stop"
proof -
  have "kept_by_augmentation (\<lambda>G' t. after_augmentations source sink G G') source sink"
    unfolding kept_by_augmentation_def by (blast intro: after_push)
  from ff_loop_invariant [of "\<lambda>G' t. after_augmentations source sink G G'" G 0, OF at_start this]
  show ?thesis unfolding ford_fulkerson_max_flow_def by blast
qed

lemma flow_chain_graph: "flow chain_graph = (\<lambda>u v. 0)"
  by (simp add: chain_graph_def build_graph_def Graph_init_def)

subsection \<open>Dictionary updates\<close>

lemma getd_setd: "getd (setd d k x) k' dflt = (if k' = k then x else getd d k' dflt)"
  by (induction d k x rule: setd.induct) (auto simp: getd_def)

lemma keys_setd: "set (keys (setd d k x)) = insert k (set (keys d))"
  by (induction d k x rule: setd.induct) (auto simp: keys_def)

lemma distinct_keys_setd: "distinct (keys d) \<Longrightarrow> distinct (keys (setd d k x))"
proof (induction d)
  case Nil
  show ?case by (simp add: keys_def)
next
  case (Cons e d)
  obtain k' y where e: "e = (k', y)" by (cases e)
  have "set (keys (setd d k x)) = insert k (set (keys d))" by (rule keys_setd)
  then have "set (map fst (setd d k x)) = insert k (set (map fst d))" by (simp add: keys_def)
  with Cons e show ?case by (auto simp: keys_def)
qed

lemma set_setd: "set (setd d k x) \<subseteq> insert (k, x) (set d)"
  by (induction d k x rule: setd.induct) auto

lemma sum_setd_add:
  "sum_list (map snd (setd r v (getd r v 0 + c))) = sum_list (map snd r) + (c::int)"
  by (induction r) (auto simp: getd_def)

lemma getd_values: "distinct (keys r) \<Longrightarrow> map (\<lambda>k. getd r k (0::int)) (keys r) = map snd r"
proof (induction r)
  case Nil
  show ?case by (simp add: keys_def)
next
  case (Cons e r)
  obtain k y where e: "e = (k, y)" by (cases e)
  from Cons.prems e have nk: "k \<notin> set (keys r)" and d: "distinct (keys r)"
    by (simp_all add: keys_def)
  have "map (\<lambda>k'. getd ((k, y) # r) k' 0) (keys r) = map (\<lambda>k'. getd r k' 0) (keys r)"
    using nk by (intro map_cong) (auto simp: getd_def)
  with Cons.IH [OF d] e show ?case by (simp add: keys_def getd_def)
qed

lemma getd_nonneg:
  "\<forall>(v, c)\<in>set r. (0::int) \<le> c \<Longrightarrow> 0 \<le> getd r v 0"
proof (cases "map_of r v")
  case None
  then show ?thesis by (simp add: getd_def)
next
  case (Some c)
  assume a: "\<forall>(v, c)\<in>set r. (0::int) \<le> c"
  from Some have "(v, c) \<in> set r" by (rule map_of_SomeD)
  with a Some show ?thesis by (auto simp: getd_def)
qed

lemma row_add_edge:
  "row (add_edge G u v c) s = (if s = u then setd (row G u) v (cap G u v + c) else row G s)"
  by (simp add: row_def add_edge_def getd_setd)

text \<open>The row of one node in a graph built with \<^verbatim>\<open>add_edge\<close>.\<close>

definition good_row :: "int dict \<Rightarrow> bool" where
  "good_row r \<longleftrightarrow> distinct (keys r) \<and> (\<forall>(v, c)\<in>set r. 0 \<le> c)"

definition out_capacity :: "node \<Rightarrow> (node \<times> node \<times> int) list \<Rightarrow> int" where
  "out_capacity source edges = sum_list (map (\<lambda>(u, v, c). if u = source then c else 0) edges)"

lemma good_row_add_edge:
  assumes "good_row (row G s)" and "0 \<le> c"
  shows "good_row (row (add_edge G u v c) s) \<and>
         sum_list (map snd (row (add_edge G u v c) s))
           = sum_list (map snd (row G s)) + (if u = s then c else 0)"
proof (cases "s = u")
  case False
  with assms show ?thesis by (simp add: row_add_edge)
next
  case True
  have nn: "0 \<le> cap G u v + c"
    using assms True getd_nonneg [of "row G u" v] by (simp add: good_row_def cap_def)
  have "\<forall>(w, x)\<in>set (setd (row G u) v (cap G u v + c)). 0 \<le> x"
    using set_setd [of "row G u" v "cap G u v + c"] assms(1) True nn
    by (auto simp: good_row_def)
  moreover have "distinct (keys (setd (row G u) v (cap G u v + c)))"
    using assms(1) True by (simp add: good_row_def distinct_keys_setd)
  moreover have "sum_list (map snd (setd (row G u) v (cap G u v + c)))
                   = sum_list (map snd (row G u)) + c"
    unfolding cap_def by (rule sum_setd_add)
  ultimately show ?thesis using True by (simp add: row_add_edge good_row_def)
qed

lemma good_row_fold_add_edge:
  "good_row (row G s) \<Longrightarrow> \<forall>(u, v, c)\<in>set edges. 0 \<le> c \<Longrightarrow>
   good_row (row (fold (\<lambda>(u, v, c) G. add_edge G u v c) edges G) s) \<and>
   sum_list (map snd (row (fold (\<lambda>(u, v, c) G. add_edge G u v c) edges G) s))
     = sum_list (map snd (row G s)) + out_capacity s edges"
proof (induction edges arbitrary: G)
  case Nil
  then show ?case by (simp add: out_capacity_def)
next
  case (Cons e edges)
  obtain u v c where e: "e = (u, v, c)" by (cases e)
  with Cons.prems have c: "0 \<le> c" and rest: "\<forall>(u, v, c)\<in>set edges. 0 \<le> c" by simp_all
  from good_row_add_edge [OF Cons.prems(1) c, of u v]
  have g: "good_row (row (add_edge G u v c) s)"
    and s: "sum_list (map snd (row (add_edge G u v c) s))
              = sum_list (map snd (row G s)) + (if u = s then c else 0)" by simp_all
  from Cons.IH [OF g rest] s e show ?case by (simp add: out_capacity_def)
qed

lemma build_graph_row:
  assumes "\<forall>(u, v, c)\<in>set edges. 0 \<le> c"
  shows "good_row (row (build_graph n edges) s) \<and>
         sum_list (map snd (row (build_graph n edges) s)) = out_capacity s edges"
proof -
  have "good_row (row (Graph_init n) s)" "sum_list (map snd (row (Graph_init n) s)) = 0"
    by (simp_all add: good_row_def Graph_init_def row_def getd_def keys_def)
  with good_row_fold_add_edge [OF _ assms, of "Graph_init n" s] show ?thesis
    by (simp add: build_graph_def)
qed

lemma flow_build_graph: "flow (build_graph n edges) = (\<lambda>u v. 0)"
proof -
  have "flow (fold (\<lambda>(u, v, c) G. add_edge G u v c) edges G) = flow G" for G
    by (induction edges arbitrary: G) auto
  then show ?thesis by (simp add: build_graph_def Graph_init_def)
qed

text \<open>The total pushed so far and the residual capacities of the source's row.\<close>

lemma sum_list_shift:
  fixes f g :: "'a \<Rightarrow> int"
  shows "\<forall>x\<in>set xs. f x \<le> g x \<Longrightarrow> w \<in> set xs \<Longrightarrow> f w + a \<le> g w \<Longrightarrow>
         sum_list (map f xs) + a \<le> sum_list (map g xs)"
proof (induction xs)
  case Nil
  then show ?case by simp
next
  case (Cons x xs)
  have le: "sum_list (map f xs) \<le> sum_list (map g xs)"
    using Cons.prems(1) by (simp add: sum_list_mono)
  show ?case
  proof (cases "w = x")
    case True
    with Cons.prems le show ?thesis by simp
  next
    case False
    with Cons have "sum_list (map f xs) + a \<le> sum_list (map g xs)" by simp
    moreover have "f x \<le> g x" using Cons.prems by simp
    ultimately show ?thesis by simp
  qed
qed

definition within_budget :: "Graph \<Rightarrow> node \<Rightarrow> int \<Rightarrow> Graph \<Rightarrow> int \<Rightarrow> bool" where
  "within_budget G0 source B G t \<longleftrightarrow>
     graph_dict G = graph_dict G0 \<and>
     (\<forall>v\<in>set (keys (row G0 source)). 0 \<le> residual G source v) \<and>
     t + sum_list (map (residual G source) (keys (row G0 source))) \<le> B"

lemma row_cong: "graph_dict G' = graph_dict G \<Longrightarrow> row G' = row G"
  by (simp add: row_def fun_eq_iff)

lemma cap_cong: "graph_dict G' = graph_dict G \<Longrightarrow> cap G' = cap G"
  using row_cong [of G' G] by (simp add: cap_def fun_eq_iff)

lemma within_budget_kept:
  "kept_by_augmentation (within_budget G0 source B) source sink"
  unfolding kept_by_augmentation_def
proof (intro allI impI)
  fix G t parent es a
  assume I: "within_budget G0 source B G t"
    and wk: "walk parent source sink es" and ne: "sink \<noteq> source" and pos: "0 < a"
    and ed: "\<forall>(p, s)\<in>set es. a \<le> residual G p s \<and> s \<in> set (keys (row G p)) \<and> s \<noteq> source"
  let ?G' = "push_edges G es a"
  from I have gd: "graph_dict G = graph_dict G0"
    and nn: "\<forall>v\<in>set (keys (row G0 source)). 0 \<le> residual G source v"
    and bd: "t + sum_list (map (residual G source) (keys (row G0 source))) \<le> B"
    by (simp_all add: within_budget_def)
  have gd': "graph_dict ?G' = graph_dict G0" using gd by simp
  from walk_push_source_row [OF wk ne, of G a] obtain w where
    w: "(source, w) \<in> set es"
    and fl: "flow ?G' source = (flow G source)(w := flow G source w + a)" by blast
  from ed w have le: "a \<le> residual G source w" and key: "w \<in> set (keys (row G0 source))"
    using row_cong [OF gd] by auto
  have res: "residual ?G' source v = (if v = w then residual G source v - a else residual G source v)"
    for v
    using fl cap_cong [of ?G' G] by (simp add: residual_def)
  have nn': "\<forall>v\<in>set (keys (row G0 source)). 0 \<le> residual ?G' source v"
    using nn le by (simp add: res)
  have "sum_list (map (residual ?G' source) (keys (row G0 source))) + a
          \<le> sum_list (map (residual G source) (keys (row G0 source)))"
  proof (rule sum_list_shift [OF _ key])
    show "\<forall>x\<in>set (keys (row G0 source)). residual ?G' source x \<le> residual G source x"
      using pos by (simp add: res)
    show "residual ?G' source w + a \<le> residual G source w" by (simp add: res)
  qed
  with bd have "(t + a) + sum_list (map (residual ?G' source) (keys (row G0 source))) \<le> B"
    by simp
  with gd' nn' show "within_budget G0 source B ?G' (t + a)"
    by (simp add: within_budget_def)
qed

lemma ford_fulkerson_budget:
  assumes zero: "flow G = (\<lambda>u v. 0)"
    and nn: "\<forall>v\<in>set (keys (row G source)). 0 \<le> cap G source v"
  shows "\<exists>total final. ford_fulkerson_max_flow G source sink = Some (total, final) \<and>
           total \<le> sum_list (map (cap G source) (keys (row G source)))"
proof -
  let ?B = "sum_list (map (cap G source) (keys (row G source)))"
  have r: "residual G source = cap G source" using zero by (simp add: residual_def fun_eq_iff)
  have init: "within_budget G source ?B G 0"
    using nn by (simp add: within_budget_def r)
  from ff_loop_invariant [OF init within_budget_kept, of sink] obtain total final where
    ff: "ff_loop G source sink 0 = Some (total, final)"
    and I: "within_budget G source ?B final total" by blast
  from I have "0 \<le> sum_list (map (residual final source) (keys (row G source)))"
    by (intro sum_list_nonneg) (auto simp: within_budget_def)
  with I have "total \<le> ?B" by (simp add: within_budget_def)
  with ff show ?thesis by (simp add: ford_fulkerson_max_flow_def)
qed

lemma pushed_positive: "loop_body G source sink = Pushed a G' \<Longrightarrow> 0 < a"
  by (cases G source sink rule: loop_body_cases) auto

subsection \<open>The verifier's sums\<close>

text \<open>The sum of the positive supplied entries in the row of the source.\<close>

definition source_out_sum :: "node \<Rightarrow> flow_dict \<Rightarrow> int" where
  "source_out_sum source user_flow =
     sum_list (map (\<lambda>v. if entry user_flow source v > 0 then entry user_flow source v else 0)
                   (keys (getd user_flow source [])))"

text \<open>Conservation as the verifier checks it, at the nodes \<^verbatim>\<open>range(self.V)\<close> other than source and sink.\<close>

definition conserved :: "int \<Rightarrow> node \<Rightarrow> node \<Rightarrow> flow_dict \<Rightarrow> bool" where
  "conserved n source sink user_flow \<longleftrightarrow>
     (\<forall>node. 0 \<le> node \<and> node < n \<and> node \<noteq> source \<and> node \<noteq> sink \<longrightarrow>
        inflow user_flow node = outflow n user_flow node)"

lemma conservation_loop_conserved:
  "conservation_loop n source sink user_flow [0..n - 1] \<longleftrightarrow> conserved n source sink user_flow"
  unfolding conservation_loop_iff conserved_def by auto

lemma inner_value_fold:
  "fold (\<lambda>v acc. if entry uf u v > 0 then (if u = source then acc + entry uf u v else acc) else acc)
        vs acc
     = acc + (if u = source
              then sum_list (map (\<lambda>v. if entry uf u v > 0 then entry uf u v else 0) vs)
              else 0)"
  by (induction vs arbitrary: acc) auto

lemma outer_value_fold:
  "distinct us \<Longrightarrow>
   fold (\<lambda>u acc. acc + (if u = source then f u else (0::int))) us acc
     = acc + (if source \<in> set us then f source else 0)"
  by (induction us arbitrary: acc) auto

lemma getd_missing: "k \<notin> set (keys d) \<Longrightarrow> getd d k dflt = dflt"
proof -
  assume "k \<notin> set (keys d)"
  then have "map_of d k = None" by (simp add: keys_def map_of_eq_None_iff)
  then show ?thesis by (simp add: getd_def)
qed

lemma user_flow_value_sum:
  assumes "distinct (keys user_flow)"
  shows "user_flow_value source user_flow = source_out_sum source user_flow"
proof -
  let ?f = "\<lambda>u. sum_list (map (\<lambda>v. if entry user_flow u v > 0 then entry user_flow u v else 0)
                              (keys (getd user_flow u [])))"
  have "user_flow_value source user_flow
          = fold (\<lambda>u acc. acc + (if u = source then ?f u else 0)) (keys user_flow) 0"
    unfolding user_flow_value_def inner_value_fold ..
  also have "\<dots> = (if source \<in> set (keys user_flow) then ?f source else 0)"
    using outer_value_fold [OF assms, of source ?f 0] by simp
  also have "\<dots> = ?f source"
    by (simp add: getd_missing keys_def)
  finally show ?thesis by (simp add: source_out_sum_def)
qed

lemma V_add_edge [simp]: "V (add_edge G u v c) = V G"
  by (simp add: add_edge_def)

lemma V_build_graph: "V (build_graph n edges) = n"
proof -
  have "V (fold (\<lambda>(u, v, c) G. add_edge G u v c) edges G) = V G" for G
    by (induction edges arbitrary: G) auto
  then show ?thesis by (simp add: build_graph_def Graph_init_def)
qed

lemma verify_maximum_flow_cases:
  "\<exists>mx final.
     ford_fulkerson_max_flow (copy_edges G (Graph_init (V G))) source sink = Some (mx, final) \<and>
     verify_maximum_flow G source sink user_flow =
       Some (if conserved (V G) source sink user_flow
             then (user_flow_value source user_flow = mx, user_flow_value source user_flow, mx)
             else (False, 0, mx))"
proof -
  obtain mx final where
    ff: "ford_fulkerson_max_flow (copy_edges G (Graph_init (V G))) source sink = Some (mx, final)"
    using ford_fulkerson_returns by blast
  from verify_maximum_flow_result [OF ff, of user_flow] ff show ?thesis
    unfolding conservation_loop_conserved by blast
qed

text \<open>A network whose edge 1 \<rightarrow> 2 has capacity 1, and maximum flow 5.\<close>

definition narrow_graph :: Graph where
  "narrow_graph = build_graph 4 [(0, 1, 5), (1, 2, 1), (1, 3, 10), (3, 2, 10)]"

text \<open>A network 0 \<rightarrow> 1 \<rightarrow> 2 with no edge from 0 to 2.\<close>

definition two_hop_graph :: Graph where
  "two_hop_graph = build_graph 3 [(0, 1, 5), (1, 2, 5)]"

text \<open>The capacity of the edges that leave a set of nodes.\<close>

definition cut_capacity :: "Graph \<Rightarrow> node set \<Rightarrow> int" where
  "cut_capacity G S =
     sum_list (map (\<lambda>(u, r). sum_list (map (\<lambda>(v, c). if u \<in> S \<and> v \<notin> S then c else 0) r))
                   (graph_dict G))"

lemma shortcut_graph_dict:
  "graph_dict shortcut_graph =
     [(0, [(1, 1), (2, 1)]), (1, [(3, 1), (5, 1)]), (2, [(4, 1)]), (4, [(3, 1)]),
      (3, [(7, 1)]), (5, [(6, 1)]), (6, [(7, 1)])]"
  by code_simp

lemma shortcut_cut_ge_2: "0 \<in> S \<Longrightarrow> 7 \<notin> S \<Longrightarrow> 2 \<le> cut_capacity shortcut_graph S"
  unfolding cut_capacity_def shortcut_graph_dict
  by (cases "1 \<in> S"; cases "2 \<in> S"; cases "3 \<in> S"; cases "4 \<in> S"; cases "5 \<in> S"; cases "6 \<in> S") simp_all

lemma shortcut_cut_0: "cut_capacity shortcut_graph {0} = 2"
  unfolding cut_capacity_def shortcut_graph_dict by simp

lemma cap_add_edge: "cap (add_edge G u v c) u v = cap G u v + c"
  by (simp add: cap_def row_add_edge getd_setd)

text \<open>
  The verifier adds a node's outflow over the heads in \<^verbatim>\<open>range(self.V)\<close>. For a supplied row
  whose heads all are nodes of the graph this is the sum of all entries of the row.
\<close>

lemma sum_list_single:
  "0 \<le> k \<Longrightarrow> k < n \<Longrightarrow> sum_list (map (\<lambda>v. if v = k then y else 0) [0..n - 1]) = (y::int)"
proof -
  assume "0 \<le> k" "k < n"
  then have "k \<in> {0..n - 1}" by simp
  moreover have "sum_list (map (\<lambda>v. if v = k then y else 0) [0..n - 1])
          = (\<Sum>v\<in>{0..n - 1}. if v = k then y else 0)"
    by (simp add: sum_list_distinct_conv_sum_set)
  ultimately show ?thesis by simp
qed

lemma sum_upto_getd:
  "distinct (keys r) \<Longrightarrow> \<forall>k\<in>set (keys r). 0 \<le> k \<and> k < n \<Longrightarrow>
   sum_list (map (\<lambda>v. getd r v (0::int)) [0..n - 1]) = sum_list (map snd r)"
proof (induction r)
  case Nil
  show ?case by (simp add: getd_def)
next
  case (Cons e r)
  obtain k y where e: "e = (k, y)" by (cases e)
  from Cons.prems e have nk: "k \<notin> set (keys r)" and d: "distinct (keys r)"
    and rg: "\<forall>k\<in>set (keys r). 0 \<le> k \<and> k < n" and k: "0 \<le> k" "k < n"
    by (simp_all add: keys_def)
  have "getd r k 0 = 0" using nk by (rule getd_missing)
  then have "getd ((k, y) # r) v 0 = (if v = k then y else 0) + getd r v 0" for v
    by (simp add: getd_def)
  then have "sum_list (map (\<lambda>v. getd ((k, y) # r) v 0) [0..n - 1])
               = sum_list (map (\<lambda>v. if v = k then y else 0) [0..n - 1])
                 + sum_list (map (\<lambda>v. getd r v 0) [0..n - 1])"
    by (simp add: sum_list_addf)
  with Cons.IH [OF d rg] sum_list_single [OF k, of y] e show ?case by simp
qed

lemma outflow_row_sum:
  assumes "distinct (keys (getd user_flow node []))"
    and "\<forall>v\<in>set (keys (getd user_flow node [])). 0 \<le> v \<and> v < n"
  shows "outflow n user_flow node = sum_list (map snd (getd user_flow node []))"
  using sum_upto_getd [OF assms] by (simp add: outflow_def entry_def)

subsection \<open>Conservation over the supplied entries\<close>

text \<open>
  The supplied mapping as the list of its entries \<open>(u, v, value)\<close>, and the sums the
  specification speaks of: the supplied values on entries ending at a node, on entries
  starting at a node, and on entries starting at a node whose head is one of the nodes
  \<open>0, \<dots>, n - 1\<close>. None of them is taken from the verifier's code.
\<close>

definition entries :: "flow_dict \<Rightarrow> (node \<times> node \<times> int) list" where
  "entries user_flow = concat (map (\<lambda>(u, r). map (Pair u) r) user_flow)"

definition supplied_inflow :: "flow_dict \<Rightarrow> node \<Rightarrow> int" where
  "supplied_inflow user_flow node =
     sum_list (map (\<lambda>(u, v, x). x) (filter (\<lambda>(u, v, x). v = node) (entries user_flow)))"

definition supplied_outflow :: "flow_dict \<Rightarrow> node \<Rightarrow> int" where
  "supplied_outflow user_flow node =
     sum_list (map (\<lambda>(u, v, x). x) (filter (\<lambda>(u, v, x). u = node) (entries user_flow)))"

definition supplied_outflow_within :: "int \<Rightarrow> flow_dict \<Rightarrow> node \<Rightarrow> int" where
  "supplied_outflow_within n user_flow node =
     sum_list (map (\<lambda>(u, v, x). x)
                   (filter (\<lambda>(u, v, x). u = node \<and> 0 \<le> v \<and> v < n) (entries user_flow)))"

text \<open>A Python dictionary of dictionaries has every key once, at both levels.\<close>

definition is_dict :: "flow_dict \<Rightarrow> bool" where
  "is_dict user_flow \<longleftrightarrow>
     distinct (keys user_flow) \<and> (\<forall>(u, r)\<in>set user_flow. distinct (keys r))"

lemma getd_rows: "distinct (keys d) \<Longrightarrow> map (\<lambda>k. getd d k dflt) (keys d) = map snd d"
proof (induction d)
  case Nil
  show ?case by (simp add: keys_def)
next
  case (Cons e d)
  obtain k y where e: "e = (k, y)" by (cases e)
  from Cons.prems e have nk: "k \<notin> set (keys d)" and dd: "distinct (keys d)"
    by (simp_all add: keys_def)
  have "map (\<lambda>k'. getd ((k, y) # d) k' dflt) (keys d) = map (\<lambda>k'. getd d k' dflt) (keys d)"
    using nk by (intro map_cong) (auto simp: getd_def)
  with Cons.IH [OF dd] e show ?case by (simp add: keys_def getd_def)
qed

lemma filter_missing_key:
  "k \<notin> set (keys r) \<Longrightarrow> filter (\<lambda>(v, x). v = k) r = []"
  by (induction r) (auto simp: keys_def)

lemma getd_filter_sum:
  "distinct (keys r) \<Longrightarrow> getd r k (0::int) = sum_list (map snd (filter (\<lambda>(v, x). v = k) r))"
proof (induction r)
  case Nil
  show ?case by (simp add: getd_def)
next
  case (Cons e r)
  obtain k' y where e: "e = (k', y)" by (cases e)
  from Cons.prems e have nk: "k' \<notin> set (keys r)" and d: "distinct (keys r)"
    by (simp_all add: keys_def)
  show ?case
  proof (cases "k' = k")
    case True
    with nk have "filter (\<lambda>(v, x). v = k) r = []" by (simp add: filter_missing_key)
    with True e show ?thesis by (simp add: getd_def)
  next
    case False
    with Cons.IH [OF d] e show ?thesis by (simp add: getd_def)
  qed
qed

lemma sum_list_none:
  "\<not> (0 \<le> k \<and> k < n) \<Longrightarrow> sum_list (map (\<lambda>v. if v = k then y else 0) [0..n - 1]) = (0::int)"
proof -
  assume "\<not> (0 \<le> k \<and> k < n)"
  then have "\<forall>v\<in>set [0..n - 1]. (if v = k then y else 0) = 0" by auto
  then have "map (\<lambda>v. if v = k then y else 0) [0..n - 1] = map (\<lambda>v. 0) [0..n - 1]"
    by (intro map_cong) simp_all
  then have "sum_list (map (\<lambda>v. if v = k then y else 0) [0..n - 1])
               = sum_list (map (\<lambda>v. 0::int) [0..n - 1])"
    by (rule arg_cong)
  then show ?thesis by simp
qed

lemma sum_upto_getd_within:
  "distinct (keys r) \<Longrightarrow>
   sum_list (map (\<lambda>v. getd r v (0::int)) [0..n - 1])
     = sum_list (map snd (filter (\<lambda>(v, x). 0 \<le> v \<and> v < n) r))"
proof (induction r)
  case Nil
  show ?case by (simp add: getd_def)
next
  case (Cons e r)
  obtain k y where e: "e = (k, y)" by (cases e)
  from Cons.prems e have nk: "k \<notin> set (keys r)" and d: "distinct (keys r)"
    by (simp_all add: keys_def)
  have "getd r k 0 = 0" using nk by (rule getd_missing)
  then have "getd ((k, y) # r) v 0 = (if v = k then y else 0) + getd r v 0" for v
    by (simp add: getd_def)
  then have split: "sum_list (map (\<lambda>v. getd ((k, y) # r) v 0) [0..n - 1])
               = sum_list (map (\<lambda>v. if v = k then y else 0) [0..n - 1])
                 + sum_list (map (\<lambda>v. getd r v 0) [0..n - 1])"
    by (simp add: sum_list_addf)
  show ?case
  proof (cases "0 \<le> k \<and> k < n")
    case True
    then have a: "sum_list (map (\<lambda>v. if v = k then y else 0) [0..n - 1]) = y"
      by (simp add: sum_list_single)
    show ?thesis unfolding e split a Cons.IH [OF d] using True by simp
  next
    case False
    then have a: "sum_list (map (\<lambda>v. if v = k then y else 0) [0..n - 1]) = 0"
      by (rule sum_list_none)
    show ?thesis unfolding e split a Cons.IH [OF d] using False by auto
  qed
qed

lemma entries_Cons:
  "entries ((u, r) # user_flow) = map (Pair u) r @ entries user_flow"
  by (simp add: entries_def)

lemma row_entries_heads:
  "map (\<lambda>(u, v, x). x) (filter (\<lambda>(u, v, x). P v) (map (Pair u) r))
     = map snd (filter (\<lambda>(v, x). P v) r)"
  by (induction r) auto

lemma row_entries_tail:
  "filter (\<lambda>(u', v, x). u' = node) (map (Pair u) r)
     = (if u = node then map (Pair node) r else [])"
  by (induction r) auto

lemma supplied_inflow_rows:
  "supplied_inflow user_flow node
     = sum_list (map (\<lambda>(u, r). sum_list (map snd (filter (\<lambda>(v, x). v = node) r))) user_flow)"
proof (induction user_flow)
  case Nil
  show ?case by (simp add: supplied_inflow_def entries_def)
next
  case (Cons e user_flow)
  obtain u r where e: "e = (u, r)" by (cases e)
  from Cons e show ?case
    by (simp add: supplied_inflow_def entries_Cons row_entries_heads)
qed

lemma is_dict_row: "is_dict user_flow \<Longrightarrow> distinct (keys (getd user_flow node []))"
proof (cases "map_of user_flow node")
  case None
  then show ?thesis by (simp add: getd_def keys_def)
next
  case (Some r)
  assume d: "is_dict user_flow"
  from Some have "(node, r) \<in> set user_flow" by (rule map_of_SomeD)
  with d Some show ?thesis by (auto simp: is_dict_def getd_def)
qed

lemma inflow_supplied:
  assumes "is_dict user_flow"
  shows "inflow user_flow node = supplied_inflow user_flow node"
proof -
  from assms have d: "distinct (keys user_flow)"
    and rows: "\<forall>(u, r)\<in>set user_flow. distinct (keys r)" by (simp_all add: is_dict_def)
  have "inflow user_flow node
          = sum_list (map (\<lambda>r. getd r node 0) (map (\<lambda>u. getd user_flow u []) (keys user_flow)))"
    by (simp add: inflow_def entry_def comp_def)
  also have "\<dots> = sum_list (map (\<lambda>r. getd r node 0) (map snd user_flow))"
    by (simp only: getd_rows [OF d])
  also have "\<dots> = sum_list (map (\<lambda>(u, r). getd r node 0) user_flow)"
    by (simp add: comp_def case_prod_unfold)
  also have "\<dots> = sum_list (map (\<lambda>(u, r). sum_list (map snd (filter (\<lambda>(v, x). v = node) r)))
                                 user_flow)"
    using rows by (intro arg_cong [where f = sum_list] map_cong) (auto simp: getd_filter_sum)
  finally show ?thesis by (simp add: supplied_inflow_rows)
qed

lemma filter_entries_tail:
  "distinct (keys user_flow) \<Longrightarrow>
   filter (\<lambda>(u, v, x). u = node) (entries user_flow)
     = map (Pair node) (getd user_flow node [])"
proof (induction user_flow)
  case Nil
  show ?case by (simp add: entries_def getd_def)
next
  case (Cons e user_flow)
  obtain u r where e: "e = (u, r)" by (cases e)
  from Cons.prems e have nk: "u \<notin> set (keys user_flow)" and d: "distinct (keys user_flow)"
    by (simp_all add: keys_def)
  show ?case
  proof (cases "u = node")
    case True
    with nk have "getd user_flow node [] = []" by (simp add: getd_missing)
    with Cons.IH [OF d] True e show ?thesis
      by (simp add: entries_Cons row_entries_tail getd_def)
  next
    case False
    with Cons.IH [OF d] e show ?thesis
      by (simp add: entries_Cons row_entries_tail getd_def)
  qed
qed

lemma outflow_supplied_within:
  assumes "is_dict user_flow"
  shows "outflow n user_flow node = supplied_outflow_within n user_flow node"
proof -
  from assms have d: "distinct (keys user_flow)" by (simp add: is_dict_def)
  let ?r = "getd user_flow node []"
  have "filter (\<lambda>(u, v, x). u = node \<and> 0 \<le> v \<and> v < n) (entries user_flow)
          = filter (\<lambda>(u, v, x). 0 \<le> v \<and> v < n) (filter (\<lambda>(u, v, x). u = node) (entries user_flow))"
    by (auto simp: case_prod_unfold intro: filter_cong)
  also have "\<dots> = filter (\<lambda>(u, v, x). 0 \<le> v \<and> v < n) (map (Pair node) ?r)"
    by (simp only: filter_entries_tail [OF d])
  finally have "supplied_outflow_within n user_flow node
                  = sum_list (map snd (filter (\<lambda>(v, x). 0 \<le> v \<and> v < n) ?r))"
    by (simp add: supplied_outflow_within_def row_entries_heads)
  moreover have "outflow n user_flow node
                   = sum_list (map snd (filter (\<lambda>(v, x). 0 \<le> v \<and> v < n) ?r))"
    using sum_upto_getd_within [OF is_dict_row [OF assms, of node], where n = n]
    by (simp add: outflow_def entry_def)
  ultimately show ?thesis by simp
qed

lemma supplied_outflow_within_all:
  assumes "\<forall>(u, v, x)\<in>set (entries user_flow). 0 \<le> v \<and> v < n"
  shows "supplied_outflow_within n user_flow node = supplied_outflow user_flow node"
proof -
  have "filter (\<lambda>(u, v, x). u = node \<and> 0 \<le> v \<and> v < n) (entries user_flow)
          = filter (\<lambda>(u, v, x). u = node) (entries user_flow)"
    using assms by (intro filter_cong) auto
  then show ?thesis by (simp add: supplied_outflow_within_def supplied_outflow_def)
qed

lemma conserved_supplied:
  assumes "is_dict user_flow"
  shows "conserved n source sink user_flow \<longleftrightarrow>
           (\<forall>node. 0 \<le> node \<and> node < n \<and> node \<noteq> source \<and> node \<noteq> sink \<longrightarrow>
              supplied_inflow user_flow node = supplied_outflow_within n user_flow node)"
  unfolding conserved_def
  by (simp only: inflow_supplied [OF assms] outflow_supplied_within [OF assms])

section \<open>The claims\<close>

text \<open>
  C10. When the sink is the source, \<^verbatim>\<open>ford_fulkerson_max_flow\<close> returns 0 and leaves the flow
  (the whole graph object) as it was: the search starts with the source in \<^verbatim>\<open>visited\<close> and
  so never reports a path to a sink that is the source.
\<close>

theorem sink_is_source_returns_zero:
  "ford_fulkerson_max_flow G source source = Some (0, G) \<and>
   \<not> fst (bfs_path_exists G source source Map.empty)"
proof
  show "ford_fulkerson_max_flow G source source = Some (0, G)"
    unfolding ford_fulkerson_max_flow_def using loop_body_same_node by (rule ff_loop_stop)
  show "\<not> fst (bfs_path_exists G source source Map.empty)"
  proof
    assume "fst (bfs_path_exists G source source Map.empty)"
    then have "bfs_path_exists G source source Map.empty
                 = (True, snd (bfs_path_exists G source source Map.empty))"
      by (cases "bfs_path_exists G source source Map.empty") simp
    from bfs_path_exists_found [OF this] show False by simp
  qed
qed

text \<open>
  C4. The third component of the verifier's answer is the value the engine returns on a
  fresh copy of the capacities whose flow is zero everywhere; it is the same for any two
  supplied flow mappings.
\<close>

theorem true_max_flow_ignores_user_flow:
  "\<exists>mx final.
     ford_fulkerson_max_flow (copy_edges G (Graph_init (V G))) source sink = Some (mx, final) \<and>
     flow (copy_edges G (Graph_init (V G))) = (\<lambda>u v. 0) \<and>
     (\<exists>ok1 v1. verify_maximum_flow G source sink user_flow1 = Some (ok1, v1, mx)) \<and>
     (\<exists>ok2 v2. verify_maximum_flow G source sink user_flow2 = Some (ok2, v2, mx))"
proof -
  obtain mx final where
    ff: "ford_fulkerson_max_flow (copy_edges G (Graph_init (V G))) source sink = Some (mx, final)"
    using ford_fulkerson_returns by blast
  have z: "flow (copy_edges G (Graph_init (V G))) = (\<lambda>u v. 0)"
    by (simp add: flow_copy_edges Graph_init_def)
  have "\<exists>ok v. verify_maximum_flow G source sink uf = Some (ok, v, mx)" for uf
    by (auto simp: verify_maximum_flow_result [OF ff])
  with ff z show ?thesis by blast
qed

text \<open>
  C8. Started on an all-zero flow, the engine keeps the flow antisymmetric: after every
  augmentation of the loop, and in the graph it returns, \<^verbatim>\<open>flow[v][u] == -flow[u][v]\<close> for
  all pairs.
\<close>

theorem engine_keeps_antisymmetry:
  assumes "flow G = (\<lambda>u v. 0)"
  shows "(\<forall>G'. after_augmentations source sink G G' \<longrightarrow> (\<forall>u v. flow G' v u = - flow G' u v)) \<and>
         (\<exists>total final. ford_fulkerson_max_flow G source sink = Some (total, final) \<and>
                         after_augmentations source sink G final \<and>
                         (\<forall>u v. flow final v u = - flow final u v))"
proof -
  have G: "antisymmetric G" by (rule antisymmetricI) (simp add: assms)
  have 1: "\<forall>G'. after_augmentations source sink G G' \<longrightarrow> (\<forall>u v. flow G' v u = - flow G' u v)"
  proof (intro allI impI)
    fix G' u v
    assume "after_augmentations source sink G G'"
    then have "antisymmetric G'" using G by (rule antisymmetric_after_augmentations)
    then show "flow G' v u = - flow G' u v" by (rule antisymmetricD)
  qed
  obtain total final where
    ff: "ford_fulkerson_max_flow G source sink = Some (total, final)"
    and aa: "after_augmentations source sink G final"
    using ford_fulkerson_after_augmentations [of G source sink] by blast
  have "antisymmetric final" using aa G by (rule antisymmetric_after_augmentations)
  then have "\<forall>u v. flow final v u = - flow final u v" unfolding antisymmetric_def .
  with 1 ff aa show ?thesis by (intro conjI exI) 
qed

theorem engine_keeps_antisymmetry_witness:
  "flow chain_graph = (\<lambda>u v. 0) \<and>
   (\<exists>final. ford_fulkerson_max_flow chain_graph 0 3 = Some (5, final) \<and>
             after_augmentations 0 3 chain_graph final \<and>
             (\<forall>u v. flow final v u = - flow final u v))"
proof -
  have v: "map_option fst (ford_fulkerson_max_flow chain_graph 0 3) = Some 5"
    by code_simp
  from engine_keeps_antisymmetry [OF flow_chain_graph, of 0 3]
  obtain total final where
    ff: "ford_fulkerson_max_flow chain_graph 0 3 = Some (total, final)"
    and aa: "after_augmentations 0 3 chain_graph final"
    and an: "\<forall>u v. flow final v u = - flow final u v"
    by (elim conjE exE)
  from ff v have "total = 5" by simp
  with ff have "ford_fulkerson_max_flow chain_graph 0 3 = Some (5, final)" by simp
  with flow_chain_graph aa an show ?thesis by (intro conjI exI [of _ final])
qed

text \<open>
  C6. On a graph built from edges with non-negative capacities the engine returns: every
  augmentation pushes a strictly positive amount, the loop ends, and the returned total is
  at most the sum of the capacities of the edges that leave the source.
\<close>

theorem max_flow_terminates_within_source_capacity:
  assumes "\<forall>(u, v, c)\<in>set edges. 0 \<le> c"
  shows "(\<forall>G a G'. loop_body G source sink = Pushed a G' \<longrightarrow> 0 < a) \<and>
         (\<exists>total final.
            ford_fulkerson_max_flow (build_graph n edges) source sink = Some (total, final) \<and>
            total \<le> out_capacity source edges)"
proof -
  let ?G = "build_graph n edges"
  from build_graph_row [OF assms, of n source]
  have good: "good_row (row ?G source)"
    and total: "sum_list (map snd (row ?G source)) = out_capacity source edges" by simp_all
  have "cap ?G source = (\<lambda>k. getd (row ?G source) k 0)"
    by (simp add: fun_eq_iff cap_def)
  then have caps: "map (cap ?G source) (keys (row ?G source)) = map snd (row ?G source)"
    using good getd_values [of "row ?G source"] by (simp add: good_row_def)
  have nn: "\<forall>v\<in>set (keys (row ?G source)). 0 \<le> cap ?G source v"
    using good getd_nonneg [of "row ?G source"] by (simp add: good_row_def cap_def)
  from ford_fulkerson_budget [OF flow_build_graph nn, of sink] caps total
  have "\<exists>total final.
          ford_fulkerson_max_flow ?G source sink = Some (total, final) \<and>
          total \<le> out_capacity source edges" by simp
  then show ?thesis using pushed_positive by blast
qed

theorem max_flow_terminates_within_source_capacity_witness:
  "(0 :: int) \<le> 10 \<and> (0 :: int) \<le> 5 \<and> (0 :: int) \<le> 15 \<and>
   (\<exists>total final.
      ford_fulkerson_max_flow (build_graph 4 [(0, 1, 10), (1, 2, 5), (2, 3, 15)]) 0 3
        = Some (total, final) \<and> total \<le> 10)"
proof -
  have h: "\<forall>(u, v, c)\<in>set [(0 :: int, 1 :: int, 10 :: int), (1, 2, 5), (2, 3, 15)]. 0 \<le> c"
    by simp
  have o: "out_capacity 0 [(0, 1, 10), (1, 2, 5), (2, 3, 15)] = 10"
    by (simp add: out_capacity_def)
  from max_flow_terminates_within_source_capacity [OF h, of 0 3 4]
  have "\<exists>total final.
          ford_fulkerson_max_flow (build_graph 4 [(0, 1, 10), (1, 2, 5), (2, 3, 15)]) 0 3
            = Some (total, final) \<and> total \<le> out_capacity 0 [(0, 1, 10), (1, 2, 5), (2, 3, 15)]"
    by (rule conjunct2)
  then show ?thesis unfolding o by simp
qed

text \<open>
  C3, as stated, fails in both directions on mappings with an entry to a head outside
  \<^verbatim>\<open>range(V)\<close>. On the network 0 \<rightarrow> 1 \<rightarrow> 2 the mapping 0\<rightarrow>1: 5, 1\<rightarrow>2: 5, 1\<rightarrow>9: 100 is
  reported valid although node 1 receives 5 and sends 105; the mapping 0\<rightarrow>1: 5, 1\<rightarrow>7: 5,
  7\<rightarrow>2: 5 is reported invalid although node 1 receives 5 and sends 5 and the source sends
  the maximum 5.
\<close>

theorem valid_despite_unbalanced_node:
  "verify_maximum_flow two_hop_graph 0 2 [(0, [(1, 5)]), (1, [(2, 5), (9, 100)])]
     = Some (True, 5, 5) \<and>
   supplied_inflow [(0, [(1, 5)]), (1, [(2, 5), (9, 100)])] 1 = 5 \<and>
   supplied_outflow [(0, [(1, 5)]), (1, [(2, 5), (9, 100)])] 1 = 105 \<and>
   verify_maximum_flow two_hop_graph 0 2 [(0, [(1, 5)]), (1, [(7, 5)]), (7, [(2, 5)])]
     = Some (False, 0, 5) \<and>
   supplied_inflow [(0, [(1, 5)]), (1, [(7, 5)]), (7, [(2, 5)])] 1 = 5 \<and>
   supplied_outflow [(0, [(1, 5)]), (1, [(7, 5)]), (7, [(2, 5)])] 1 = 5 \<and>
   source_out_sum 0 [(0, [(1, 5)]), (1, [(7, 5)]), (7, [(2, 5)])] = 5"
  by code_simp

text \<open>
  C3, as the code has it. The verifier reports \<^verbatim>\<open>is_valid\<close> exactly when, at every node of
  \<^verbatim>\<open>range(V)\<close> other than source and sink, the supplied entries ending at the node add up to
  the same as the supplied entries that start at the node and end at a node of
  \<^verbatim>\<open>range(V)\<close>, and the positive supplied entries leaving the source add up to the maximum
  computed on the fresh copy. When every supplied entry ends at a node of \<^verbatim>\<open>range(V)\<close>, this
  is conservation of the supplied flow at those nodes. Capacities enter only through the
  maximum: no supplied entry is compared with the capacity of its edge.
\<close>

theorem verifier_valid_iff_within_range:
  assumes "is_dict user_flow"
  shows "\<exists>mx final ok uval.
           ford_fulkerson_max_flow (copy_edges G (Graph_init (V G))) source sink = Some (mx, final) \<and>
           verify_maximum_flow G source sink user_flow = Some (ok, uval, mx) \<and>
           (ok \<longleftrightarrow>
              (\<forall>node. 0 \<le> node \<and> node < V G \<and> node \<noteq> source \<and> node \<noteq> sink \<longrightarrow>
                 supplied_inflow user_flow node = supplied_outflow_within (V G) user_flow node) \<and>
              source_out_sum source user_flow = mx) \<and>
           ((\<forall>(u, v, x)\<in>set (entries user_flow). 0 \<le> v \<and> v < V G) \<longrightarrow>
              (ok \<longleftrightarrow>
                 (\<forall>node. 0 \<le> node \<and> node < V G \<and> node \<noteq> source \<and> node \<noteq> sink \<longrightarrow>
                    supplied_inflow user_flow node = supplied_outflow user_flow node) \<and>
                 source_out_sum source user_flow = mx))"
proof -
  from assms have d: "distinct (keys user_flow)" by (simp add: is_dict_def)
  from verify_maximum_flow_cases [of G source sink user_flow] obtain mx final where
    ff: "ford_fulkerson_max_flow (copy_edges G (Graph_init (V G))) source sink = Some (mx, final)"
    and vf: "verify_maximum_flow G source sink user_flow =
       Some (if conserved (V G) source sink user_flow
             then (user_flow_value source user_flow = mx, user_flow_value source user_flow, mx)
             else (False, 0, mx))" by blast
  define W where "W \<longleftrightarrow>
    (\<forall>node. 0 \<le> node \<and> node < V G \<and> node \<noteq> source \<and> node \<noteq> sink \<longrightarrow>
       supplied_inflow user_flow node = supplied_outflow_within (V G) user_flow node)"
  define F where "F \<longleftrightarrow>
    (\<forall>node. 0 \<le> node \<and> node < V G \<and> node \<noteq> source \<and> node \<noteq> sink \<longrightarrow>
       supplied_inflow user_flow node = supplied_outflow user_flow node)"
  have c: "conserved (V G) source sink user_flow \<longleftrightarrow> W"
    unfolding W_def by (rule conserved_supplied [OF assms])
  have v: "verify_maximum_flow G source sink user_flow
             = Some (W \<and> source_out_sum source user_flow = mx,
                     if W then source_out_sum source user_flow else 0, mx)"
    by (cases W) (simp_all add: vf c user_flow_value_sum [OF d])
  have full: "(\<forall>(u, v, x)\<in>set (entries user_flow). 0 \<le> v \<and> v < V G) \<longrightarrow> W = F"
  proof
    assume "\<forall>(u, v, x)\<in>set (entries user_flow). 0 \<le> v \<and> v < V G"
    then have "supplied_outflow_within (V G) user_flow node = supplied_outflow user_flow node"
      for node by (rule supplied_outflow_within_all)
    then show "W = F" unfolding W_def F_def by simp
  qed
  have "\<exists>ok uval.
          verify_maximum_flow G source sink user_flow = Some (ok, uval, mx) \<and>
          (ok \<longleftrightarrow> W \<and> source_out_sum source user_flow = mx) \<and>
          ((\<forall>(u, v, x)\<in>set (entries user_flow). 0 \<le> v \<and> v < V G) \<longrightarrow>
             (ok \<longleftrightarrow> F \<and> source_out_sum source user_flow = mx))"
    using v full by blast
  with ff show ?thesis unfolding W_def F_def by blast
qed

theorem verifier_valid_iff_within_range_witness:
  "cap narrow_graph 1 2 < entry [(0, [(1, 5)]), (1, [(2, 5)])] 1 2 \<and>
   verify_maximum_flow narrow_graph 0 2 [(0, [(1, 5)]), (1, [(2, 5)])] = Some (True, 5, 5) \<and>
   supplied_inflow [(0, [(1, 5)]), (1, [(2, 5)])] 1
     = supplied_outflow [(0, [(1, 5)]), (1, [(2, 5)])] 1 \<and>
   supplied_inflow [(0, [(1, 5)]), (1, [(2, 5)])] 3
     = supplied_outflow [(0, [(1, 5)]), (1, [(2, 5)])] 3 \<and>
   source_out_sum 0 [(0, [(1, 5)]), (1, [(2, 5)])] = 5"
proof -
  let ?uf = "[(0, [(1, 5)]), (1, [(2, 5 :: int)])]"
  have d: "is_dict ?uf" by (simp add: is_dict_def keys_def)
  have n: "V narrow_graph = 4" by (simp add: narrow_graph_def V_build_graph)
  have h: "\<forall>(u, v, x)\<in>set (entries ?uf). 0 \<le> v \<and> v < V narrow_graph"
    unfolding n by (simp add: entries_def)
  have c: "cap narrow_graph 1 2 < entry ?uf 1 2" by code_simp
  have v: "verify_maximum_flow narrow_graph 0 2 ?uf = Some (True, 5, 5)" by code_simp
  from verifier_valid_iff_within_range [OF d, of narrow_graph 0 2] v h
  have "(\<forall>node. 0 \<le> node \<and> node < V narrow_graph \<and> node \<noteq> 0 \<and> node \<noteq> 2 \<longrightarrow>
           supplied_inflow ?uf node = supplied_outflow ?uf node) \<and>
        source_out_sum 0 ?uf = 5"
    by auto
  then have "supplied_inflow ?uf 1 = supplied_outflow ?uf 1"
    "supplied_inflow ?uf 3 = supplied_outflow ?uf 3" "source_out_sum 0 ?uf = 5"
    unfolding n by simp_all
  with c v show ?thesis by (intro conjI)
qed

text \<open>
  C5, as stated, fails on a mapping with an entry to a head outside \<^verbatim>\<open>range(V)\<close>: on the
  chain the mapping 0\<rightarrow>1: 5, 1\<rightarrow>2: 5, 1\<rightarrow>9: 100, 2\<rightarrow>3: 5 is reported valid with value 5
  although node 1 receives 5 and sends 105.
\<close>

theorem unbalanced_node_not_rejected:
  "verify_maximum_flow chain_graph 0 3 [(0, [(1, 5)]), (1, [(2, 5), (9, 100)]), (2, [(3, 5)])]
     = Some (True, 5, 5) \<and>
   supplied_inflow [(0, [(1, 5)]), (1, [(2, 5), (9, 100)]), (2, [(3, 5)])] 1 = 5 \<and>
   supplied_outflow [(0, [(1, 5)]), (1, [(2, 5), (9, 100)]), (2, [(3, 5)])] 1 = 105"
  by code_simp

text \<open>
  C5, as the code has it. When at some node of \<^verbatim>\<open>range(V)\<close> other than source and sink the
  supplied entries ending at the node add up to something else than the supplied entries
  that start at the node and end at a node of \<^verbatim>\<open>range(V)\<close>, the verifier answers
  \<^verbatim>\<open>(False, 0, actual_max_flow)\<close>, whatever the supplied entries leaving the source add up to.
\<close>

theorem violation_within_range_reports_zero:
  assumes "is_dict user_flow"
    and "0 \<le> node" and "node < V G" and "node \<noteq> source" and "node \<noteq> sink"
    and "supplied_inflow user_flow node \<noteq> supplied_outflow_within (V G) user_flow node"
  shows "\<exists>mx final.
           ford_fulkerson_max_flow (copy_edges G (Graph_init (V G))) source sink = Some (mx, final) \<and>
           verify_maximum_flow G source sink user_flow = Some (False, 0, mx)"
proof -
  have "\<not> conserved (V G) source sink user_flow"
    unfolding conserved_supplied [OF assms(1)] using assms(2-6) by blast
  with verify_maximum_flow_cases [of G source sink user_flow] show ?thesis by auto
qed

theorem violation_within_range_reports_zero_witness:
  "supplied_inflow [(0, [(1, 5)]), (1, [(2, 3)]), (2, [(3, 3)])] 1 = 5 \<and>
   supplied_outflow_within 4 [(0, [(1, 5)]), (1, [(2, 3)]), (2, [(3, 3)])] 1 = 3 \<and>
   supplied_outflow [(0, [(1, 5)]), (1, [(2, 3)]), (2, [(3, 3)])] 1 = 3 \<and>
   source_out_sum 0 [(0, [(1, 5)]), (1, [(2, 3)]), (2, [(3, 3)])] = 5 \<and>
   verify_maximum_flow chain_graph 0 3 [(0, [(1, 5)]), (1, [(2, 3)]), (2, [(3, 3)])]
     = Some (False, 0, 5)"
proof -
  let ?uf = "[(0, [(1, 5)]), (1, [(2, 3)]), (2, [(3, 3 :: int)])]"
  have d: "is_dict ?uf" by (simp add: is_dict_def keys_def)
  have n: "V chain_graph = 4" by (simp add: chain_graph_def V_build_graph)
  have i: "supplied_inflow ?uf 1 = 5" by code_simp
  have o: "supplied_outflow_within 4 ?uf 1 = 3" by code_simp
  have o': "supplied_outflow ?uf 1 = 3" by code_simp
  have io: "supplied_inflow ?uf 1 \<noteq> supplied_outflow_within (V chain_graph) ?uf 1"
    unfolding n i o by simp
  have s: "source_out_sum 0 ?uf = 5" by code_simp
  have m: "map_option fst (ford_fulkerson_max_flow (copy_edges chain_graph (Graph_init (V chain_graph))) 0 3)
             = Some 5"
    by code_simp
  from violation_within_range_reports_zero [of ?uf 1 chain_graph 0 3, OF d _ _ _ _ io] n m
  have "verify_maximum_flow chain_graph 0 3 ?uf = Some (False, 0, 5)" by auto
  with i o o' s show ?thesis by (intro conjI)
qed

text \<open>
  C9. When conservation passes, the reported \<^verbatim>\<open>user_flow_value\<close> is the sum of all positive
  supplied entries in the row of the source, whether or not the pair is an edge of the
  graph, and that sum is what is compared with the maximum.
\<close>

theorem user_flow_value_counts_all_source_entries:
  assumes "distinct (keys user_flow)"
    and "\<forall>node. 0 \<le> node \<and> node < V G \<and> node \<noteq> source \<and> node \<noteq> sink \<longrightarrow>
           inflow user_flow node = outflow (V G) user_flow node"
  shows "user_flow_value source user_flow = source_out_sum source user_flow \<and>
         (\<exists>mx. verify_maximum_flow G source sink user_flow =
                  Some (source_out_sum source user_flow = mx, source_out_sum source user_flow, mx))"
proof -
  have "conserved (V G) source sink user_flow" unfolding conserved_def using assms(2) .
  with verify_maximum_flow_cases [of G source sink user_flow] user_flow_value_sum [OF assms(1), of source]
  show ?thesis by auto
qed

theorem user_flow_value_counts_all_source_entries_witness:
  "distinct (keys [(0, [(2, 5 :: int)])]) \<and>
   2 \<notin> set (keys (row two_hop_graph 0)) \<and> cap two_hop_graph 0 2 = 0 \<and>
   source_out_sum 0 [(0, [(2, 5)])] = 5 \<and>
   verify_maximum_flow two_hop_graph 0 2 [(0, [(2, 5)])] = Some (True, 5, 5)"
proof -
  let ?uf = "[(0, [(2, 5 :: int)])]"
  have d: "distinct (keys ?uf)" by (simp add: keys_def)
  have n: "V two_hop_graph = 3" by (simp add: two_hop_graph_def V_build_graph)
  have k: "2 \<notin> set (keys (row two_hop_graph 0))" by code_simp
  have c: "cap two_hop_graph 0 2 = 0" by code_simp
  have s: "source_out_sum 0 ?uf = 5" by code_simp
  have m: "map_option fst (ford_fulkerson_max_flow (copy_edges two_hop_graph (Graph_init (V two_hop_graph))) 0 2)
             = Some 5"
    by code_simp
  have cons: "\<forall>node. 0 \<le> node \<and> node < V two_hop_graph \<and> node \<noteq> 0 \<and> node \<noteq> 2 \<longrightarrow>
                inflow ?uf node = outflow (V two_hop_graph) ?uf node"
  proof (intro allI impI)
    fix node :: int
    assume "0 \<le> node \<and> node < V two_hop_graph \<and> node \<noteq> 0 \<and> node \<noteq> 2"
    with n have "node = 1" by simp
    moreover have "inflow ?uf 1 = outflow 3 ?uf 1" by code_simp
    ultimately show "inflow ?uf node = outflow (V two_hop_graph) ?uf node"
      unfolding n by simp
  qed
  from user_flow_value_counts_all_source_entries [OF d cons] s
  obtain mx where v: "verify_maximum_flow two_hop_graph 0 2 ?uf = Some (5 = mx, 5, mx)" by auto
  have "mx = 5" using m v verify_maximum_flow_cases [of two_hop_graph 0 2 ?uf]
    by (auto split: if_splits)
  with v d k c s show ?thesis by simp
qed

text \<open>
  C1. The returned value is not always the capacity of a minimum cut. In the shortcut
  network every cut that separates node 0 from node 7 has capacity at least 2, and the cut
  around node 0 has capacity 2; the engine returns 1. When it stops, the search reports no
  path although every edge of 0-2-4-3-1-5-6-7 has residual capacity 1: the step from 3 to 1
  is the reverse of the pushed edge 1 \<rightarrow> 3, and 1 is not a key of \<^verbatim>\<open>self.graph[3]\<close>.
\<close>

theorem shortcut_graph_flow_below_min_cut:
  "(\<forall>S. 2 \<le> cut_capacity shortcut_graph (insert 0 (S - {7}))) \<and>
   cut_capacity shortcut_graph {0} = 2 \<and>
   (case ford_fulkerson_max_flow shortcut_graph 0 7 of
      None \<Rightarrow> False
    | Some (mf, final) \<Rightarrow>
        mf = 1 \<and>
        \<not> fst (bfs_path_exists final 0 7 Map.empty) \<and>
        map (\<lambda>(u, v). residual final u v) [(0, 2), (2, 4), (4, 3), (3, 1), (1, 5), (5, 6), (6, 7)]
          = [1, 1, 1, 1, 1, 1, 1])"
proof (intro conjI)
  show "\<forall>S. 2 \<le> cut_capacity shortcut_graph (insert 0 (S - {7}))"
    by (intro allI shortcut_cut_ge_2) simp_all
  show "cut_capacity shortcut_graph {0} = 2" by (rule shortcut_cut_0)
  show "case ford_fulkerson_max_flow shortcut_graph 0 7 of
      None \<Rightarrow> False
    | Some (mf, final) \<Rightarrow>
        mf = 1 \<and>
        \<not> fst (bfs_path_exists final 0 7 Map.empty) \<and>
        map (\<lambda>(u, v). residual final u v) [(0, 2), (2, 4), (4, 3), (3, 1), (1, 5), (5, 6), (6, 7)]
          = [1, 1, 1, 1, 1, 1, 1]"
    by code_simp
qed

text \<open>
  C2. The search does not traverse every pair with positive residual capacity. In the flow
  the engine leaves on the shortcut network, the pair (3, 1) has capacity 0, flow -1 and
  residual capacity 1; the search from node 0 reaches node 3 (over 0-2-4-3), never visits
  node 1, and reports no path.
\<close>

theorem reverse_arc_not_traversed:
  "case ford_fulkerson_max_flow shortcut_graph 0 7 of
     None \<Rightarrow> False
   | Some (mf, final) \<Rightarrow>
       (case bfs_path_exists final 0 7 Map.empty of
          (found, parent) \<Rightarrow>
             \<not> found \<and> parent 3 = Some 4 \<and> parent 1 = None \<and>
             cap final 3 1 = 0 \<and> flow final 3 1 = - 1 \<and> residual final 3 1 = 1)"
  by code_simp

text \<open>
  C7. No edge is rejected. An edge from node 0 to a node 5 outside \<^verbatim>\<open>range(2)\<close> carries the
  whole flow of a verification that succeeds, and an edge of capacity -3 is stored and
  searched like any other.
\<close>

theorem malformed_edges_accepted:
  "verify_maximum_flow (build_graph 2 [(0, 5, 4), (5, 1, 4)]) 0 1 [(0, [(5, 4)]), (5, [(1, 4)])]
     = Some (True, 4, 4) \<and>
   cap (build_graph 2 [(0, 1, - 3)]) 0 1 = - 3 \<and>
   verify_maximum_flow (build_graph 2 [(0, 1, - 3)]) 0 1 [] = Some (True, 0, 0)"
  by code_simp

text \<open>
  C7, as the code has it: \<^verbatim>\<open>add_edge\<close> adds any capacity to any pair, and the verification of a
  graph built from any list of edges returns an answer.
\<close>

theorem every_edge_list_is_processed:
  "cap (add_edge G u v c) u v = cap G u v + c \<and>
   (\<exists>ok uval mx.
      verify_maximum_flow (build_graph n edges) source sink user_flow = Some (ok, uval, mx))"
proof
  show "cap (add_edge G u v c) u v = cap G u v + c" by (rule cap_add_edge)
  from verify_maximum_flow_cases [of "build_graph n edges" source sink user_flow]
  show "\<exists>ok uval mx.
      verify_maximum_flow (build_graph n edges) source sink user_flow = Some (ok, uval, mx)"
    by (auto split: if_splits)
qed

end
